theory Spec2Isabelle
  imports Complex_Main
begin

section \<open>The element list (\<open>double_list\<close>)\<close>

text \<open>
  \<open>deque.hpp\<close> builds the deque from \<open>double_list<T>\<close>, a doubly linked list with a
  \<open>head\<close>, a \<open>tail\<close> and a cached \<open>size_\<close>. The list is modelled by the HOL list of its
  elements in \<open>nxt\<close> order. A \<open>double_list<T>::iterator\<close> is a node pointer that is null
  at \<open>end()\<close>; it is modelled by \<open>nat option\<close>: \<open>Some k\<close> is the node at distance \<open>k\<close>
  from \<open>head\<close>, \<open>None\<close> is the null pointer.

  Every \<open>throw\<close> statement of the file is \<open>throw std::out_of_range(...)\<close>
  (\<open>Out_of_range\<close>): it signals each of the failure conditions (an index out of bound,
  an invalid position, an empty container). The classes of \<open>exceptions.hpp\<close> are not
  used; one of them, \<open>container_is_empty\<close> (\<open>Container_is_empty\<close>), is the exception
  that the comment above \<open>front()\<close> promises, \<open>throw container_is_empty when the
  container is empty\<close>, and that no statement throws. \<open>Bad_alloc\<close> stands for what
  leaves \<open>new Node(value)\<close> when the node cannot be built: \<open>std::bad_alloc\<close> of \<open>new\<close>
  or of \<open>std::make_shared<T>(val)\<close>, or the exception of the copy constructor of \<open>T\<close>
  that \<open>make_shared\<close> calls.
\<close>

datatype error = Out_of_range | Bad_alloc | Container_is_empty

definition dl_begin :: "'a list \<Rightarrow> nat option" where
  "dl_begin xs = (if xs = [] then None else Some 0)"

definition dl_get_tail :: "'a list \<Rightarrow> nat option" where
  "dl_get_tail xs = (if xs = [] then None else Some (length xs - 1))"

text \<open>\<open>current->nxt\<close> of the node at \<open>k\<close>.\<close>

definition dl_next :: "'a list \<Rightarrow> nat \<Rightarrow> nat option" where
  "dl_next xs k = (if Suc k < length xs then Some (Suc k) else None)"

text \<open>\<open>iterator::operator++\<close>: throws on the null iterator.\<close>

definition dl_inc :: "'a list \<Rightarrow> nat option \<Rightarrow> error + nat option" where
  "dl_inc xs it = (case it of None \<Rightarrow> Inl Out_of_range | Some k \<Rightarrow> Inr (dl_next xs k))"

text \<open>\<open>iterator::operator--\<close>: throws unless \<open>current && current->pre\<close>.\<close>

definition dl_dec :: "'a list \<Rightarrow> nat option \<Rightarrow> error + nat option" where
  "dl_dec xs it =
     (case it of None \<Rightarrow> Inl Out_of_range
      | Some k \<Rightarrow> (if k = 0 then Inl Out_of_range else Inr (Some (k - 1))))"

text \<open>\<open>iterator::operator*\<close>: throws on the null iterator.\<close>

definition dl_deref :: "'a list \<Rightarrow> nat option \<Rightarrow> error + 'a" where
  "dl_deref xs it = (case it of None \<Rightarrow> Inl Out_of_range | Some k \<Rightarrow> Inr (xs ! k))"

text \<open>\<open>std::advance(it, n)\<close> for \<open>n \<ge> 0\<close>: \<open>n\<close> increments.\<close>

primrec dl_advance :: "'a list \<Rightarrow> nat option \<Rightarrow> nat \<Rightarrow> error + nat option" where
  "dl_advance xs it 0 = Inr it"
| "dl_advance xs it (Suc n) =
     (case dl_inc xs it of Inl e \<Rightarrow> Inl e | Inr it' \<Rightarrow> dl_advance xs it' n)"

text \<open>\<open>while (remain--) --it;\<close>: \<open>n\<close> decrements.\<close>

primrec dl_retreat :: "'a list \<Rightarrow> nat option \<Rightarrow> nat \<Rightarrow> error + nat option" where
  "dl_retreat xs it 0 = Inr it"
| "dl_retreat xs it (Suc n) =
     (case dl_dec xs it of Inl e \<Rightarrow> Inl e | Inr it' \<Rightarrow> dl_retreat xs it' n)"

text \<open>
  \<open>std::distance(first, last)\<close> on list iterators counts the increments that take
  \<open>first\<close> to \<open>last\<close>. When \<open>last\<close> is not ahead of \<open>first\<close> the walk runs into the
  null iterator, whose increment throws.
\<close>

function dl_distance :: "'a list \<Rightarrow> nat option \<Rightarrow> nat option \<Rightarrow> error + nat" where
  "dl_distance xs first_it last_it =
     (if first_it = last_it then Inr 0
      else (case first_it of
              None \<Rightarrow> Inl Out_of_range
            | Some k \<Rightarrow> (case dl_distance xs (dl_next xs k) last_it of
                          Inl e \<Rightarrow> Inl e
                        | Inr n \<Rightarrow> Inr (Suc n))))"
  by pat_completeness auto
termination
  by (relation "measure (\<lambda>(xs, first_it, last_it).
        (case first_it of None \<Rightarrow> 0 | Some k \<Rightarrow> Suc (length xs - k)))")
     (auto simp: dl_next_def)

declare dl_distance.simps [simp del]

text \<open>\<open>front()\<close> and \<open>back()\<close> throw on the empty list.\<close>

definition dl_front :: "'a list \<Rightarrow> error + 'a" where
  "dl_front xs = (if xs = [] then Inl Out_of_range else Inr (hd xs))"

definition dl_back :: "'a list \<Rightarrow> error + 'a" where
  "dl_back xs = (if xs = [] then Inl Out_of_range else Inr (last xs))"

text \<open>
  \<open>insert(pos, value)\<close>: appends at \<open>end()\<close>, otherwise links the new node before the
  node of \<open>pos\<close>.
\<close>

definition dl_insert :: "'a list \<Rightarrow> nat option \<Rightarrow> 'a \<Rightarrow> 'a list" where
  "dl_insert xs pos v =
     (case pos of None \<Rightarrow> xs @ [v] | Some k \<Rightarrow> take k xs @ v # drop k xs)"

text \<open>\<open>erase(pos)\<close>: throws on the null iterator, otherwise unlinks the node.\<close>

definition dl_erase :: "'a list \<Rightarrow> nat option \<Rightarrow> error + 'a list" where
  "dl_erase xs pos =
     (case pos of None \<Rightarrow> Inl Out_of_range
      | Some k \<Rightarrow> Inr (take k xs @ drop (Suc k) xs))"

section \<open>The deque\<close>

text \<open>
  \<open>struct Block { double_list<T> items; }\<close> is its item list; \<open>blocks\<close> is the list of
  blocks. The counters \<open>total_size\<close> and \<open>block_size\<close> are \<open>size_t\<close>; they count
  elements held in memory and cannot reach \<open>2^64\<close>, so they are natural numbers here.
\<close>

record 'a deque =
  blocks :: "'a list list"
  total_size :: nat
  block_size :: nat

text \<open>\<open>deque(): total_size(0), block_size(4) {}\<close>\<close>

definition deque_init :: "'a deque" where
  "deque_init = \<lparr>blocks = [], total_size = 0, block_size = 4\<rparr>"

definition size_deque :: "'a deque \<Rightarrow> nat" where
  "size_deque d = total_size d"

definition empty_deque :: "'a deque \<Rightarrow> bool" where
  "empty_deque d = (total_size d = 0)"

subsection \<open>Rebalancing\<close>

text \<open>
  \<open>std::sqrt(total_size) + 1\<close> is converted to \<open>size_t\<close>: the integer part of the
  square root, plus one (\<open>floor_sqrt_eq\<close>). The double-precision square root has the
  exact integer part for the sizes a container can have.
\<close>

primrec floor_sqrt :: "nat \<Rightarrow> nat" where
  "floor_sqrt 0 = 0"
| "floor_sqrt (Suc n) =
     (let r = floor_sqrt n in if (r + 1) * (r + 1) \<le> Suc n then r + 1 else r)"

text \<open>
  The loop of \<open>Split\<close>:
  \<^verbatim>\<open>while (split_it != it->items.end()) {
      new_block.items.insert_tail(*split_it);
      split_it = it->items.erase(split_it); }\<close>
  \<open>erase\<close> returns the node after the erased one, which then stands at the same
  distance \<open>k\<close> from the head, or \<open>end()\<close> when there is none.
\<close>

function split_loop :: "'a list \<Rightarrow> 'a list \<Rightarrow> nat \<Rightarrow> 'a list \<times> 'a list" where
  "split_loop items new_items k =
     (if k < length items
      then split_loop (take k items @ drop (Suc k) items) (new_items @ [items ! k]) k
      else (items, new_items))"
  by pat_completeness auto
termination
  by (relation "measure (\<lambda>(items, new_items, k). length items - k)") auto

declare split_loop.simps [simp del]

text \<open>
  \<open>Split(it)\<close>, on the block of \<open>it\<close> and the blocks after it: returns the block and
  its successors. The new block is inserted before the successor of \<open>it\<close>, or appended
  when there is none.
\<close>

definition Split :: "nat \<Rightarrow> 'a list \<Rightarrow> 'a list list \<Rightarrow> 'a list \<times> 'a list list" where
  "Split bsz items after =
     (if length items \<le> bsz then (items, after)
      else (case split_loop items [] (length items div 2) of
              (items', new_block) \<Rightarrow> (items', new_block # after)))"

text \<open>
  \<open>Merge(it)\<close>: returns at once when \<open>it\<close> has no successor; the loop appends the
  successor's items one by one, then the successor is erased.
\<close>

definition Merge :: "nat \<Rightarrow> 'a list \<Rightarrow> 'a list list \<Rightarrow> 'a list \<times> 'a list list" where
  "Merge bsz items after =
     (case after of
        [] \<Rightarrow> (items, [])
      | next_block # after' \<Rightarrow>
          (if length items + length next_block \<le> bsz
           then (foldl (\<lambda>cur x. cur @ [x]) items next_block, after')
           else (items, after)))"

lemma split_loop_eq: "split_loop items new_items k = (take k items, new_items @ drop k items)"
proof (induction items new_items k rule: split_loop.induct)
  case (1 items new_items k)
  show ?case
  proof (cases "k < length items")
    case True
    have "take k (take k items @ drop (Suc k) items) = take k items"
      using True by simp
    moreover have "drop k (take k items @ drop (Suc k) items) = drop (Suc k) items"
      using True by simp
    ultimately show ?thesis
      using True "1.IH" [OF True] Cons_nth_drop_Suc [OF True, symmetric]
      by (subst split_loop.simps) simp
  next
    case False
    then show ?thesis
      by (subst split_loop.simps) simp
  qed
qed

lemma Split_eq:
  "Split bsz items after =
     (if length items \<le> bsz then (items, after)
      else (take (length items div 2) items, drop (length items div 2) items # after))"
  by (simp add: Split_def split_loop_eq)

lemma foldl_snoc: "foldl (\<lambda>cur x. cur @ [x]) xs ys = xs @ ys"
  by (induction ys arbitrary: xs) simp_all

lemma Merge_eq:
  "Merge bsz items after =
     (case after of
        [] \<Rightarrow> (items, [])
      | next_block # after' \<Rightarrow>
          (if length items + length next_block \<le> bsz then (items @ next_block, after')
           else (items, after)))"
  by (simp add: Merge_def foldl_snoc split: list.splits)

text \<open>
  The scan of \<open>Balance\<close>:
  \<^verbatim>\<open>auto it = blocks.begin();
  while (it != blocks.end()) {
    if (it->items.size() > block_size * 2) Split(it);
    else if ((it->items.size()) * 2 < block_size) Merge(it);
    ++it; }\<close>
  The block iterator \<open>it\<close> divides the block list into the blocks before it and the
  blocks from it on (its \<open>nxt\<close> chain); \<open>it == blocks.end()\<close> is the empty chain.
  \<open>block_size\<close> is \<open>new_block_size\<close>, the successor of a square root, when the scan
  runs; the equation for \<open>0\<close> only makes the function total.
\<close>

function Balance_loop :: "nat \<Rightarrow> 'a list list \<Rightarrow> 'a list list \<Rightarrow> 'a list list" where
  "Balance_loop 0 passed rest = passed @ rest"
| "Balance_loop (Suc n) passed [] = passed"
| "Balance_loop (Suc n) passed (items # after) =
     (if length items > Suc n * 2 then
        Balance_loop (Suc n) (passed @ [fst (Split (Suc n) items after)])
          (snd (Split (Suc n) items after))
      else if length items * 2 < Suc n then
        Balance_loop (Suc n) (passed @ [fst (Merge (Suc n) items after)])
          (snd (Merge (Suc n) items after))
      else Balance_loop (Suc n) (passed @ [items]) after)"
  by pat_completeness auto
termination
  by (relation "measure (\<lambda>(bsz, passed, rest). sum_list (map (\<lambda>b. Suc (length b)) rest))")
     (auto simp: Split_eq Merge_eq split: list.splits)

declare Balance_loop.simps(3) [simp del]

definition Balance :: "'a deque \<Rightarrow> 'a deque" where
  "Balance d =
     (if blocks d = [] then d
      else (let new_block_size = floor_sqrt (total_size d) + 1 in
            if new_block_size \<noteq> block_size d then
              d\<lparr>blocks := Balance_loop new_block_size [] (blocks d),
                block_size := new_block_size\<rparr>
            else d))"

subsection \<open>Iterators\<close>

text \<open>
  A \<open>deque::iterator\<close> holds \<open>item_it\<close>, an iterator of the item list of its block,
  \<open>block_it\<close>, an iterator of the block list, and \<open>outer\<close>, the deque it belongs to.
  The operations below take the deque \<open>*outer\<close> as their first argument.
  \<open>operator==\<close> compares \<open>block_it\<close> and \<open>item_it\<close>: it is equality of the record.
\<close>

record iterator =
  item_it :: "nat option"
  block_it :: "nat option"

definition begin_deque :: "'a deque \<Rightarrow> iterator" where
  "begin_deque d =
     (if blocks d = [] then \<lparr>item_it = None, block_it = None\<rparr>
      else \<lparr>item_it = dl_begin (hd (blocks d)), block_it = dl_begin (blocks d)\<rparr>)"

definition end_deque :: "'a deque \<Rightarrow> iterator" where
  "end_deque d =
     (if blocks d = [] then \<lparr>item_it = None, block_it = None\<rparr>
      else \<lparr>item_it = None, block_it = dl_get_tail (blocks d)\<rparr>)"

text \<open>
  \<open>iterator::operator++()\<close>. The first test is \<open>block_it == outer->blocks.end()\<close>; the
  next two throw when \<open>item_it\<close> is the end of its block.
\<close>

definition iter_inc :: "'a deque \<Rightarrow> iterator \<Rightarrow> error + iterator" where
  "iter_inc d it =
     (case block_it it of
        None \<Rightarrow> Inl Out_of_range
      | Some b \<Rightarrow>
          (case item_it it of
             None \<Rightarrow> Inl Out_of_range
           | Some k \<Rightarrow>
               (let item_it' = dl_next (blocks d ! b) k in
                if item_it' = None \<and> Some b \<noteq> dl_get_tail (blocks d)
                then Inr \<lparr>item_it = dl_begin (blocks d ! Suc b), block_it = Some (Suc b)\<rparr>
                else Inr \<lparr>item_it = item_it', block_it = Some b\<rparr>)))"

text \<open>
  The loop of \<open>operator+\<close>, entered with \<open>temp.block_it\<close> at the head of the chain
  \<open>items # after\<close> (block number \<open>b\<close>) and \<open>temp.item_it\<close> at the block's \<open>begin()\<close>,
  followed by the final \<open>std::advance(temp.item_it, remain)\<close>. \<open>temp.block_it\<close> is the
  tail when \<open>after\<close> is empty. A block iterator that is dereferenced is never null
  there; the equation for the empty chain only makes the function total.
\<close>

fun plus_loop :: "'a list list \<Rightarrow> nat \<Rightarrow> int \<Rightarrow> error + iterator" where
  "plus_loop [] b remain = Inl Out_of_range"
| "plus_loop (items # after) b remain =
     (if remain > 0 then
        (if remain < int (length items) then
           (case dl_advance items (dl_begin items) (nat remain) of
              Inl e \<Rightarrow> Inl e
            | Inr i \<Rightarrow> Inr \<lparr>item_it = i, block_it = Some b\<rparr>)
         else if after \<noteq> [] then plus_loop after (Suc b) (remain - int (length items))
         else if remain - int (length items) \<noteq> 0 then Inl Out_of_range
         else Inr \<lparr>item_it = None, block_it = Some b\<rparr>)
      else Inr \<lparr>item_it = dl_begin items, block_it = Some b\<rparr>)"

text \<open>
  The loop of \<open>operator-\<close>, entered with \<open>temp.block_it\<close> at block \<open>b\<close> and
  \<open>temp.item_it\<close> at its \<open>get_tail()\<close>, followed by the final
  \<open>while (remain--) --temp.item_it;\<close>. \<open>temp.block_it == outer->blocks.begin()\<close> is
  \<open>b = 0\<close>.
\<close>

fun minus_loop :: "'a list list \<Rightarrow> nat \<Rightarrow> int \<Rightarrow> error + iterator" where
  "minus_loop bs b remain =
     (if remain > 0 \<and> \<not> remain < int (length (bs ! b)) then
        (if b = 0 then Inl Out_of_range
         else minus_loop bs (b - 1) (remain - int (length (bs ! b))))
      else (case dl_retreat (bs ! b) (dl_get_tail (bs ! b)) (nat remain) of
              Inl e \<Rightarrow> Inl e
            | Inr i \<Rightarrow> Inr \<lparr>item_it = i, block_it = Some b\<rparr>))"

declare minus_loop.simps [simp del]

text \<open>
  \<open>operator+(n)\<close> and \<open>operator-(n)\<close> after their sign test (\<open>n \<ge> 0\<close>). \<open>int\<close> is the
  mathematical integer: the counts stay below \<open>2^31\<close> with the container's size. A
  null \<open>block_it\<close> that the source would dereference has no value in the model and is
  reported as a failure.
\<close>

definition plus_nonneg :: "'a deque \<Rightarrow> iterator \<Rightarrow> int \<Rightarrow> error + iterator" where
  "plus_nonneg d it n =
     (if n = 0 then Inr it
      else (case block_it it of
              None \<Rightarrow> Inl Out_of_range
            | Some b \<Rightarrow>
                (case dl_distance (blocks d ! b) (item_it it) None of
                   Inl e \<Rightarrow> Inl e
                 | Inr block_remaining \<Rightarrow>
                     (if n < int block_remaining then
                        (case dl_advance (blocks d ! b) (item_it it) (nat n) of
                           Inl e \<Rightarrow> Inl e
                         | Inr i \<Rightarrow> Inr \<lparr>item_it = i, block_it = Some b\<rparr>)
                      else (let remain = n - int block_remaining in
                            if remain = 0 \<and> Some b = dl_get_tail (blocks d) then Inr (end_deque d)
                            else (case dl_next (blocks d) b of
                                    None \<Rightarrow> Inl Out_of_range
                                  | Some b' \<Rightarrow> plus_loop (drop b' (blocks d)) b' remain))))))"

text \<open>
  \<open>operator-(n)\<close> from \<open>int block_remaining = ...\<close> on, with the values of \<open>temp\<close>
  and \<open>remain\<close> at that point.
\<close>

definition minus_walk :: "'a deque \<Rightarrow> iterator \<Rightarrow> int \<Rightarrow> error + iterator" where
  "minus_walk d temp remain =
     (case block_it temp of
        None \<Rightarrow> Inl Out_of_range
      | Some b \<Rightarrow>
          (case dl_distance (blocks d ! b) (dl_begin (blocks d ! b)) (item_it temp) of
             Inl e \<Rightarrow> Inl e
           | Inr block_remaining \<Rightarrow>
               (if remain \<le> int block_remaining then
                  (case dl_retreat (blocks d ! b) (item_it temp) (nat remain) of
                     Inl e \<Rightarrow> Inl e
                   | Inr i \<Rightarrow> Inr \<lparr>item_it = i, block_it = Some b\<rparr>)
                else if Some b = dl_begin (blocks d) then Inl Out_of_range
                else minus_loop (blocks d) (b - 1) (remain - int block_remaining - 1))))"

definition minus_nonneg :: "'a deque \<Rightarrow> iterator \<Rightarrow> int \<Rightarrow> error + iterator" where
  "minus_nonneg d it n =
     (if n = 0 then Inr it
      else if it = end_deque d then
        minus_walk d \<lparr>item_it = dl_get_tail (last (blocks d)),
                       block_it = dl_get_tail (blocks d)\<rparr> (n - 1)
      else minus_walk d it n)"

definition iter_plus :: "'a deque \<Rightarrow> iterator \<Rightarrow> int \<Rightarrow> error + iterator" where
  "iter_plus d it n = (if n < 0 then minus_nonneg d it (- n) else plus_nonneg d it n)"

definition iter_minus :: "'a deque \<Rightarrow> iterator \<Rightarrow> int \<Rightarrow> error + iterator" where
  "iter_minus d it n = (if n < 0 then plus_nonneg d it (- n) else minus_nonneg d it n)"

text \<open>
  \<open>size_t operator-(const iterator& rhs)\<close>. The result type is unsigned: the two
  \<open>return -...\<close> statements return the negated distance modulo \<open>2^64\<close>.
\<close>

definition neg_size_t :: "nat \<Rightarrow> nat" where
  "neg_size_t x = (2 ^ 64 - x mod 2 ^ 64) mod 2 ^ 64"

text \<open>
  The loop of the case \<open>block_it == rhs.block_it\<close>; the flag \<open>f\<close> is the first
  component of the result.
  \<^verbatim>\<open>while(temp_item_it!=item_it){
    if(temp_item_it == temp_block_it->items.end()){ f=1; break; }
    distance++; ++temp_item_it; }\<close>
\<close>

function same_block_walk :: "'a list \<Rightarrow> nat option \<Rightarrow> nat option \<Rightarrow> nat \<Rightarrow> bool \<times> nat" where
  "same_block_walk items temp_item_it target distance =
     (if temp_item_it \<noteq> target then
        (case temp_item_it of
           None \<Rightarrow> (True, distance)
         | Some k \<Rightarrow> same_block_walk items (dl_next items k) target (distance + 1))
      else (False, distance))"
  by pat_completeness auto
termination
  by (relation "measure (\<lambda>(items, temp_item_it, target, distance).
        (case temp_item_it of None \<Rightarrow> 0 | Some k \<Rightarrow> Suc (length items - k)))")
     (auto simp: dl_next_def)

declare same_block_walk.simps [simp del]

text \<open>
  The two block loops of \<open>operator-\<close>, on the chain of \<open>temp_block_it\<close> (block number
  \<open>tb\<close>); the first component of the result is the flag \<open>f\<close>.
  \<^verbatim>\<open>while (temp_block_it != block_it) {
    if(temp_block_it == rhs.outer->blocks.end()){ f=0; break; }
    distance += temp_block_it->items.size(); ++temp_block_it; }\<close>
\<close>

fun block_walk :: "'a list list \<Rightarrow> nat \<Rightarrow> nat \<Rightarrow> nat \<Rightarrow> bool \<times> nat" where
  "block_walk [] tb target distance = (False, distance)"
| "block_walk (items # after) tb target distance =
     (if tb \<noteq> target then block_walk after (Suc tb) target (distance + length items)
      else (True, distance))"

text \<open>
  Both iterators are iterators into the deque \<open>d\<close>; an iterator of another container
  is not represented.
\<close>

definition iter_diff :: "'a deque \<Rightarrow> iterator \<Rightarrow> iterator \<Rightarrow> error + nat" where
  "iter_diff d it rhs =
     (case block_it it of
        None \<Rightarrow> Inl Out_of_range
      | Some bt \<Rightarrow>
     (case block_it rhs of
        None \<Rightarrow> Inl Out_of_range
      | Some br \<Rightarrow>
          (if bt = br then
             (case same_block_walk (blocks d ! br) (item_it rhs) (item_it it) 0 of
                (True, distance) \<Rightarrow>
                  (case dl_distance (blocks d ! bt) (item_it it) (item_it rhs) of
                     Inl e \<Rightarrow> Inl e
                   | Inr n \<Rightarrow> Inr (neg_size_t n))
              | (False, distance) \<Rightarrow> Inr distance)
           else
             (case dl_distance (blocks d ! br) (item_it rhs) None of
                Inl e \<Rightarrow> Inl e
              | Inr d0 \<Rightarrow>
                  (case block_walk (drop (Suc br) (blocks d)) (Suc br) bt d0 of
                     (True, distance) \<Rightarrow>
                       (case dl_distance (blocks d ! bt) (dl_begin (blocks d ! bt)) (item_it it) of
                          Inl e \<Rightarrow> Inl e
                        | Inr n \<Rightarrow> Inr (distance + n))
                   | (False, distance) \<Rightarrow>
                       (case dl_distance (blocks d ! bt) (item_it it) None of
                          Inl e \<Rightarrow> Inl e
                        | Inr d1 \<Rightarrow>
                            (case block_walk (drop (Suc bt) (blocks d)) (Suc bt) br d1 of
                               (True, distance) \<Rightarrow>
                                 (case dl_distance (blocks d ! br) (dl_begin (blocks d ! br))
                                         (item_it rhs) of
                                    Inl e \<Rightarrow> Inl e
                                  | Inr n \<Rightarrow> Inr (neg_size_t (distance + n)))
                             | (False, distance) \<Rightarrow> Inl Out_of_range)))))))"

subsection \<open>Element access\<close>

text \<open>
  The loop of \<open>at\<close> over the block list, with the \<open>throw\<close> that follows it.
\<close>

fun at_loop :: "'a list list \<Rightarrow> nat \<Rightarrow> nat \<Rightarrow> error + 'a" where
  "at_loop [] current_pos pos = Inl Out_of_range"
| "at_loop (items # after) current_pos pos =
     (if current_pos + length items > pos then
        (case dl_advance items (dl_begin items) (pos - current_pos) of
           Inl e \<Rightarrow> Inl e
         | Inr i \<Rightarrow> dl_deref items i)
      else at_loop after (current_pos + length items) pos)"

definition at_deque :: "'a deque \<Rightarrow> nat \<Rightarrow> error + 'a" where
  "at_deque d pos =
     (if pos \<ge> total_size d then Inl Out_of_range else at_loop (blocks d) 0 pos)"

definition front_deque :: "'a deque \<Rightarrow> error + 'a" where
  "front_deque d = (if blocks d = [] then Inl Out_of_range else dl_front (hd (blocks d)))"

definition back_deque :: "'a deque \<Rightarrow> error + 'a" where
  "back_deque d = (if blocks d = [] then Inl Out_of_range else dl_back (last (blocks d)))"

subsection \<open>Modifiers\<close>

text \<open>
  A modifier returns its outcome, an exception or its result, together with the deque
  as the call leaves it.

  The loop that \<open>insert\<close> and \<open>erase\<close> run after \<open>Balance\<close> to find the iterator at
  offset \<open>dis\<close> again, with the \<open>std::advance\<close> after it:
  \<^verbatim>\<open>block_it = blocks.begin();
  while(dis >= block_it->items.size()){
    dis -= block_it->items.size();
    if(block_it == blocks.get_tail()) break;
    ++block_it; }
  item_it = block_it->items.begin();
  std::advance(item_it, dis);\<close>
\<close>

definition relocate_item :: "'a list \<Rightarrow> nat \<Rightarrow> nat \<Rightarrow> error + iterator" where
  "relocate_item items b dis =
     (case dl_advance items (dl_begin items) dis of
        Inl e \<Rightarrow> Inl e
      | Inr i \<Rightarrow> Inr \<lparr>item_it = i, block_it = Some b\<rparr>)"

text \<open>
  The block list is not empty when the loop runs; the equation for the empty chain
  only makes the function total.
\<close>

fun relocate :: "'a list list \<Rightarrow> nat \<Rightarrow> nat \<Rightarrow> error + iterator" where
  "relocate [] b dis = Inl Out_of_range"
| "relocate (items # after) b dis =
     (if dis \<ge> length items then
        (if after = [] then relocate_item items b (dis - length items)
         else relocate after (Suc b) (dis - length items))
      else relocate_item items b dis)"

definition insert_deque :: "'a deque \<Rightarrow> iterator \<Rightarrow> 'a \<Rightarrow> (error + iterator) \<times> 'a deque" where
  "insert_deque d pos v =
     (if blocks d = [] then
        (if pos \<noteq> end_deque d then (Inl Out_of_range, d)
         else (let d1 = d\<lparr>blocks := [[v]], total_size := total_size d + 1\<rparr> in
               (Inr \<lparr>item_it = dl_begin (last (blocks d1)), block_it = dl_get_tail (blocks d1)\<rparr>,
                d1)))
      else (case block_it pos of
              None \<Rightarrow> (Inl Out_of_range, d)
            | Some b \<Rightarrow>
                (case iter_diff d pos (begin_deque d) of
                   Inl e \<Rightarrow> (Inl e, d)
                 | Inr dis \<Rightarrow>
                     (if dis > total_size d then (Inl Out_of_range, d)
                      else (let d1 = d\<lparr>blocks := (blocks d)
                                          [b := dl_insert (blocks d ! b) (item_it pos) v],
                                        total_size := total_size d + 1\<rparr>;
                                d2 = Balance d1
                            in (relocate (blocks d2) 0 dis, d2))))))"

definition erase :: "'a deque \<Rightarrow> iterator \<Rightarrow> (error + iterator) \<times> 'a deque" where
  "erase d pos =
     (case block_it pos of
        None \<Rightarrow> (Inl Out_of_range, d)
      | Some b \<Rightarrow>
          (case iter_diff d pos (begin_deque d) of
             Inl e \<Rightarrow> (Inl e, d)
           | Inr dis \<Rightarrow>
               (if dis \<ge> total_size d then (Inl Out_of_range, d)
                else (case dl_erase (blocks d ! b) (item_it pos) of
                        Inl e \<Rightarrow> (Inl e, d)
                      | Inr items' \<Rightarrow>
                          (let d1 = d\<lparr>blocks := (if items' = []
                                                  then take b (blocks d) @ drop (Suc b) (blocks d)
                                                  else (blocks d)[b := items']),
                                        total_size := total_size d - 1\<rparr>
                           in if empty_deque d1 \<or> dis = total_size d1 then (Inr (end_deque d1), d1)
                              else (let d2 = Balance d1
                                    in (relocate (blocks d2) 0 dis, d2)))))))"

definition push_back :: "'a deque \<Rightarrow> 'a \<Rightarrow> 'a deque" where
  "push_back d v =
     (let bs1 = (if blocks d = [] \<or> length (last (blocks d)) \<ge> block_size d
                 then blocks d @ [[]] else blocks d);
          bs2 = butlast bs1 @ [last bs1 @ [v]]
      in Balance (d\<lparr>blocks := bs2, total_size := total_size d + 1\<rparr>))"

definition push_front :: "'a deque \<Rightarrow> 'a \<Rightarrow> 'a deque" where
  "push_front d v =
     (let bs1 = (if blocks d = [] \<or> length (hd (blocks d)) \<ge> block_size d
                 then [] # blocks d else blocks d);
          bs2 = (v # hd bs1) # tl bs1
      in Balance (d\<lparr>blocks := bs2, total_size := total_size d + 1\<rparr>))"



text \<open>
  \<open>pop_back\<close> and \<open>pop_front\<close> test \<open>empty()\<close>, that is \<open>total_size == 0\<close>;
  \<open>blocks.back()\<close> and \<open>blocks.front()\<close> throw on an empty block list.
\<close>

definition pop_back :: "'a deque \<Rightarrow> (error + unit) \<times> 'a deque" where
  "pop_back d =
     (if empty_deque d then (Inl Out_of_range, d)
      else if blocks d = [] then (Inl Out_of_range, d)
      else (let bs1 = butlast (blocks d) @ [butlast (last (blocks d))];
                bs2 = (if last bs1 = [] then butlast bs1 else bs1)
            in (Inr (), Balance (d\<lparr>blocks := bs2, total_size := total_size d - 1\<rparr>))))"

definition pop_front :: "'a deque \<Rightarrow> (error + unit) \<times> 'a deque" where
  "pop_front d =
     (if empty_deque d then (Inl Out_of_range, d)
      else if blocks d = [] then (Inl Out_of_range, d)
      else (let bs1 = tl (hd (blocks d)) # tl (blocks d);
                bs2 = (if hd bs1 = [] then tl bs1 else bs1)
            in (Inr (), Balance (d\<lparr>blocks := bs2, total_size := total_size d - 1\<rparr>))))"

section \<open>Well-formed deques\<close>

text \<open>
  The logical element sequence of a deque is the concatenation of its blocks' item
  lists in block order. A deque is well formed when \<open>total_size\<close> is the number of
  its elements and no block is empty; the deques the operations produce are of this
  kind (\<open>wf_deque_init\<close>, \<open>wf_apply_op\<close>, \<open>wf_run\<close>).
\<close>

definition elements :: "'a deque \<Rightarrow> 'a list" where
  "elements d = concat (blocks d)"

definition wf_deque :: "'a deque \<Rightarrow> bool" where
  "wf_deque d = (total_size d = length (concat (blocks d)) \<and> [] \<notin> set (blocks d))"

section \<open>Element list lemmas\<close>

lemma dl_advance_Some:
  "k + n < length xs \<Longrightarrow> dl_advance xs (Some k) n = Inr (Some (k + n))"
  by (induction n arbitrary: k) (simp_all add: dl_inc_def dl_next_def)

lemma dl_advance_end:
  "k < length xs \<Longrightarrow> k + n = length xs \<Longrightarrow> dl_advance xs (Some k) n = Inr None"
proof (induction n arbitrary: k)
  case 0
  then show ?case by simp
next
  case (Suc n)
  show ?case
  proof (cases "Suc k < length xs")
    case True
    then show ?thesis using Suc.IH [of "Suc k"] Suc.prems
      by (simp add: dl_inc_def dl_next_def)
  next
    case False
    then have "n = 0" using Suc.prems by simp
    then show ?thesis using False by (simp add: dl_inc_def dl_next_def)
  qed
qed

lemma dl_retreat_Some:
  "n \<le> k \<Longrightarrow> dl_retreat xs (Some k) n = Inr (Some (k - n))"
  by (induction n arbitrary: k) (simp_all add: dl_dec_def)

lemma dl_distance_same [simp]: "dl_distance xs it it = Inr 0"
  by (subst dl_distance.simps) simp

lemma dl_distance_to_end:
  "k < length xs \<Longrightarrow> dl_distance xs (Some k) None = Inr (length xs - k)"
proof (induction "length xs - k" arbitrary: k)
  case 0
  then show ?case by simp
next
  case (Suc m)
  show ?case
  proof (cases "Suc k < length xs")
    case True
    then have "dl_distance xs (Some (Suc k)) None = Inr (length xs - Suc k)"
      using Suc.hyps by (intro Suc.hyps(1)) auto
    then show ?thesis using True
      by (subst dl_distance.simps) (simp add: dl_next_def Suc_diff_Suc)
  next
    case False
    then have "length xs - k = Suc 0" using Suc.prems by simp
    then show ?thesis using False
      by (subst dl_distance.simps) (simp add: dl_next_def)
  qed
qed

lemma dl_distance_Some:
  "i \<le> j \<Longrightarrow> j < length xs \<Longrightarrow> dl_distance xs (Some i) (Some j) = Inr (j - i)"
proof (induction "j - i" arbitrary: i)
  case 0
  then show ?case by simp
next
  case (Suc m)
  then have lt: "i < j" by simp
  then have "dl_distance xs (Some (Suc i)) (Some j) = Inr (j - Suc i)"
    using Suc by (intro Suc.hyps(1)) auto
  then show ?case using lt Suc.prems
    by (subst dl_distance.simps) (simp add: dl_next_def Suc_diff_Suc)
qed

section \<open>Indexed access\<close>

lemma at_loop_correct:
  "cur \<le> pos \<Longrightarrow> pos - cur < length (concat bs) \<Longrightarrow>
   at_loop bs cur pos = Inr (concat bs ! (pos - cur))"
proof (induction bs arbitrary: cur)
  case Nil
  then show ?case by simp
next
  case (Cons items after)
  show ?case
  proof (cases "cur + length items > pos")
    case True
    then have k: "pos - cur < length items" using Cons.prems by simp
    then have "items \<noteq> []" by auto
    then show ?thesis using True k dl_advance_Some [of 0 "pos - cur" items]
      by (simp add: dl_begin_def dl_deref_def nth_append)
  next
    case False
    then have "at_loop after (cur + length items) pos
                 = Inr (concat after ! (pos - (cur + length items)))"
      using Cons.prems by (intro Cons.IH) auto
    moreover have "pos - cur - length items = pos - (cur + length items)" by simp
    moreover have "\<not> pos - cur < length items" using False Cons.prems(1) by arith
    ultimately show ?thesis using False by (simp add: nth_append)
  qed
qed

section \<open>Rebalancing\<close>

text \<open>
  The rebalancing scan as the specification words it, for a deque of \<open>n\<close> elements
  and the capacity \<open>floor_sqrt n + 1\<close>: each block is looked at once, from the first;
  a block of more than twice the capacity is split in half, the second half becoming
  a new block right after it (the scan reaches the new block next); a block of less
  than half the capacity takes over the items of its successor when the two together
  do not exceed the capacity, and is left alone otherwise or when it is the last
  block. "Less than half the capacity" is \<open>2 * length b < capacity\<close>
  (\<open>half_threshold\<close>).
\<close>

function rebalance_spec :: "nat \<Rightarrow> 'a list list \<Rightarrow> 'a list list" where
  "rebalance_spec n [] = []"
| "rebalance_spec n (b # bs) =
     (if length b > 2 * (floor_sqrt n + 1) then
        take (length b div 2) b # rebalance_spec n (drop (length b div 2) b # bs)
      else if 2 * length b < floor_sqrt n + 1 then
        (case bs of
           [] \<Rightarrow> [b]
         | s # bs' \<Rightarrow>
             (if length b + length s \<le> floor_sqrt n + 1 then (b @ s) # rebalance_spec n bs'
              else b # rebalance_spec n bs))
      else b # rebalance_spec n bs)"
  by pat_completeness auto
termination
  by (relation "measure (\<lambda>(n, bs). sum_list (map (\<lambda>b. Suc (length b)) bs))") auto

declare rebalance_spec.simps(2) [simp del]

lemma Balance_loop_refines:
  "bsz = Suc (floor_sqrt n) \<Longrightarrow>
   Balance_loop bsz passed rest = passed @ rebalance_spec n rest"
proof (induction bsz passed rest rule: Balance_loop.induct)
  case (1 passed rest)
  then show ?case by simp
next
  case (2 k passed)
  then show ?case by simp
next
  case (3 k passed items after)
  show ?case
  proof (cases "length items > Suc k * 2")
    case True
    then show ?thesis using "3.IH"(1) "3.prems"
      by (subst Balance_loop.simps(3), subst rebalance_spec.simps(2)) (simp add: Split_eq)
  next
    case False
    note nosplit = this
    show ?thesis
    proof (cases "length items * 2 < Suc k")
      case True
      then show ?thesis using nosplit "3.IH"(2) "3.prems"
        by (subst Balance_loop.simps(3), subst rebalance_spec.simps(2))
           (auto simp: Merge_eq mult.commute split: list.splits)
    next
      case False
      then show ?thesis using nosplit "3.IH"(3) "3.prems"
        by (subst Balance_loop.simps(3), subst rebalance_spec.simps(2)) (simp add: mult.commute)
    qed
  qed
qed

lemma concat_rebalance_spec: "concat (rebalance_spec n bs) = concat bs"
proof (induction n bs rule: rebalance_spec.induct)
  case (1 n)
  then show ?case by simp
next
  case (2 n b bs)
  then show ?case
    by (subst rebalance_spec.simps(2)) (auto split: list.splits simp flip: append_assoc)
qed

lemma rebalance_spec_nonempty:
  "[] \<notin> set bs \<Longrightarrow> [] \<notin> set (rebalance_spec n bs)"
proof (induction n bs rule: rebalance_spec.induct)
  case (1 n)
  then show ?case by simp
next
  case (2 n b bs)
  show ?case
  proof (cases "length b > 2 * (floor_sqrt n + 1)")
    case True
    then have "take (length b div 2) b \<noteq> []" "drop (length b div 2) b \<noteq> []"
      by auto
    then show ?thesis using True "2.IH"(1) "2.prems"
      by (subst rebalance_spec.simps(2)) simp
  next
    case False
    then show ?thesis using "2.IH"(2,3,4) "2.prems"
      by (subst rebalance_spec.simps(2)) (auto split: list.splits)
  qed
qed

lemma rebalance_spec_Nil_iff: "rebalance_spec n bs = [] \<longleftrightarrow> bs = []"
  by (cases bs) (auto simp: rebalance_spec.simps(2) split: list.splits)

lemma Balance_eq:
  "Balance d =
     (if blocks d = [] \<or> floor_sqrt (total_size d) + 1 = block_size d then d
      else d\<lparr>blocks := rebalance_spec (total_size d) (blocks d),
              block_size := floor_sqrt (total_size d) + 1\<rparr>)"
  using Balance_loop_refines [of "floor_sqrt (total_size d) + 1" "total_size d" "[]" "blocks d"]
  by (simp add: Balance_def Let_def)

lemma floor_sqrt_bounds:
  "floor_sqrt n * floor_sqrt n \<le> n \<and> n < (floor_sqrt n + 1) * (floor_sqrt n + 1)"
proof (induction n)
  case 0
  then show ?case by simp
next
  case (Suc n)
  let ?r = "floor_sqrt n"
  show ?case
  proof (cases "(?r + 1) * (?r + 1) \<le> Suc n")
    case True
    have "(?r + 1 + 1) * (?r + 1 + 1) = (?r + 1) * (?r + 1) + 2 * ?r + 3"
      by (simp add: algebra_simps)
    then have "Suc n < (?r + 1 + 1) * (?r + 1 + 1)"
      using Suc by linarith
    then show ?thesis using True by (simp add: Let_def)
  next
    case False
    then show ?thesis using Suc by (simp add: Let_def)
  qed
qed

lemma floor_sqrt_eq: "floor_sqrt n = nat \<lfloor>sqrt (real n)\<rfloor>"
proof -
  let ?r = "floor_sqrt n"
  have "?r * ?r \<le> n" using floor_sqrt_bounds [of n] by simp
  then have "real (?r * ?r) \<le> real n" by (rule iffD2 [OF of_nat_le_iff])
  then have "(real ?r)\<^sup>2 \<le> real n" by (simp add: power2_eq_square)
  then have lo: "real ?r \<le> sqrt (real n)" by (rule real_le_rsqrt)
  have "n < (?r + 1) * (?r + 1)" using floor_sqrt_bounds [of n] by simp
  then have "real n < real ((?r + 1) * (?r + 1))" by (rule iffD2 [OF of_nat_less_iff])
  then have "real n < (real ?r + 1)\<^sup>2" by (simp add: power2_eq_square algebra_simps)
  then have hi: "sqrt (real n) < real ?r + 1" by (intro real_less_lsqrt) auto
  have "\<lfloor>sqrt (real n)\<rfloor> = int ?r"
    using lo hi by (intro floor_unique) auto
  then show ?thesis by simp
qed

lemma half_threshold: "(2 * k < (b::nat)) = (real k < real b / 2)"
proof -
  have "(2 * k < b) = (real (2 * k) < real b)" by (rule of_nat_less_iff [symmetric])
  also have "\<dots> = (real k < real b / 2)" by (simp add: field_simps)
  finally show ?thesis .
qed

lemma elements_Balance: "elements (Balance d) = elements d"
  by (simp add: Balance_eq elements_def concat_rebalance_spec)

lemma total_size_Balance: "total_size (Balance d) = total_size d"
  by (simp add: Balance_eq)

lemma blocks_Balance_Nil_iff: "blocks (Balance d) = [] \<longleftrightarrow> blocks d = []"
  by (simp add: Balance_eq rebalance_spec_Nil_iff)

lemma wf_Balance: "wf_deque d \<Longrightarrow> wf_deque (Balance d)"
  by (simp add: Balance_eq wf_deque_def concat_rebalance_spec rebalance_spec_nonempty)

text \<open>
  Claim C4. \<open>Balance\<close> changes nothing when there are no blocks, or when
  \<open>floor(sqrt(total_size)) + 1\<close> is the cached \<open>block_size\<close>. Otherwise it stores the
  new \<open>block_size\<close> and its scan, with the loops of \<open>Split\<close> and \<open>Merge\<close>, computes
  \<open>rebalance_spec\<close>. The element sequence is the same before and after.
\<close>

theorem Balance_rebalances:
  "Balance d =
     (if blocks d = [] then d
      else if floor_sqrt (total_size d) + 1 = block_size d then d
      else d\<lparr>blocks := rebalance_spec (total_size d) (blocks d),
              block_size := floor_sqrt (total_size d) + 1\<rparr>)
   \<and> floor_sqrt (total_size d) = nat \<lfloor>sqrt (real (total_size d))\<rfloor>
   \<and> elements (Balance d) = elements d"
  using floor_sqrt_eq [of "total_size d"]
  by (simp add: Balance_eq elements_def concat_rebalance_spec)

theorem Balance_rebalances_witness:
  "Balance \<lparr>blocks = [[1, 2, 3, 4, 5, 6, 7::nat]], total_size = 7, block_size = 4\<rparr>
     = \<lparr>blocks = [[1, 2, 3], [4, 5, 6, 7]], total_size = 7, block_size = 3\<rparr>
   \<and> Balance \<lparr>blocks = [[1], [2], [3, 4, 5, 6, 7, 8, 9::nat]], total_size = 9, block_size = 3\<rparr>
     = \<lparr>blocks = [[1, 2], [3, 4, 5, 6, 7, 8, 9]], total_size = 9, block_size = 4\<rparr>"
proof -
  have "floor_sqrt 7 = 2" "floor_sqrt 9 = 3"
    by code_simp+
  moreover have "rebalance_spec 7 [[1, 2, 3, 4, 5, 6, 7::nat]] = [[1, 2, 3], [4, 5, 6, 7]]"
    by code_simp
  moreover have "rebalance_spec 9 [[1], [2], [3, 4, 5, 6, 7, 8, 9::nat]]
                   = [[1, 2], [3, 4, 5, 6, 7, 8, 9]]"
    by code_simp
  ultimately show ?thesis
    using Balance_rebalances
            [of "\<lparr>blocks = [[1, 2, 3, 4, 5, 6, 7::nat]], total_size = 7, block_size = 4\<rparr>"]
          Balance_rebalances
            [of "\<lparr>blocks = [[1], [2], [3, 4, 5, 6, 7, 8, 9::nat]], total_size = 9,
                  block_size = 3\<rparr>"]
    by simp
qed

section \<open>Both ends\<close>

lemma concat_blocks_Balance: "concat (blocks (Balance d)) = concat (blocks d)"
  using elements_Balance [of d] by (simp add: elements_def)

lemma wf_empty_iff: "wf_deque d \<Longrightarrow> (total_size d = 0) = (blocks d = [])"
  by (cases "blocks d") (auto simp: wf_deque_def)

lemma wf_hd_last:
  "wf_deque d \<Longrightarrow> blocks d \<noteq> [] \<Longrightarrow> hd (blocks d) \<noteq> [] \<and> last (blocks d) \<noteq> []"
  by (metis wf_deque_def hd_in_set last_in_set)

lemma concat_butlast_last: "bs \<noteq> [] \<Longrightarrow> concat bs = concat (butlast bs) @ last bs"
  by (metis append_butlast_last_id concat_append concat.simps append_Nil2)

lemma last_concat_blocks: "bs \<noteq> [] \<Longrightarrow> last bs \<noteq> [] \<Longrightarrow> last (concat bs) = last (last bs)"
  by (simp add: concat_butlast_last)

lemma concat_hd_tl: "bs \<noteq> [] \<Longrightarrow> concat bs = hd bs @ concat (tl bs)"
  by (cases bs) simp_all

text \<open>The blocks after the pop, before \<open>Balance\<close> runs.\<close>

definition blocks_pop_back :: "'a list list \<Rightarrow> 'a list list" where
  "blocks_pop_back bs =
     (if length (last bs) = 1 then butlast bs else butlast bs @ [butlast (last bs)])"

definition blocks_pop_front :: "'a list list \<Rightarrow> 'a list list" where
  "blocks_pop_front bs = (if length (hd bs) = 1 then tl bs else tl (hd bs) # tl bs)"

lemma pop_back_eq:
  assumes "wf_deque d" "total_size d \<noteq> 0"
  shows "pop_back d = (Inr (), Balance (d\<lparr>blocks := blocks_pop_back (blocks d),
                                          total_size := total_size d - 1\<rparr>))"
proof -
  have ne: "blocks d \<noteq> []" using assms by (simp add: wf_empty_iff)
  then have "last (blocks d) \<noteq> []" using assms(1) wf_hd_last by blast
  then have "(butlast (last (blocks d)) = []) = (length (last (blocks d)) = 1)"
    by (cases "last (blocks d)") auto
  then show ?thesis using ne assms(2)
    by (simp add: pop_back_def empty_deque_def blocks_pop_back_def Let_def)
qed

lemma pop_front_eq:
  assumes "wf_deque d" "total_size d \<noteq> 0"
  shows "pop_front d = (Inr (), Balance (d\<lparr>blocks := blocks_pop_front (blocks d),
                                           total_size := total_size d - 1\<rparr>))"
proof -
  have ne: "blocks d \<noteq> []" using assms by (simp add: wf_empty_iff)
  then have "hd (blocks d) \<noteq> []" using assms(1) wf_hd_last by blast
  then have "(tl (hd (blocks d)) = []) = (length (hd (blocks d)) = 1)"
    by (cases "hd (blocks d)") auto
  then show ?thesis using ne assms(2)
    by (simp add: pop_front_def empty_deque_def blocks_pop_front_def Let_def)
qed

lemma concat_blocks_pop_back:
  "bs \<noteq> [] \<Longrightarrow> last bs \<noteq> [] \<Longrightarrow> concat (blocks_pop_back bs) = butlast (concat bs)"
proof -
  assume a: "bs \<noteq> []" "last bs \<noteq> []"
  have "butlast (concat bs) = concat (butlast bs) @ butlast (last bs)"
    using a by (simp add: concat_butlast_last butlast_append)
  moreover have "length (last bs) = 1 \<Longrightarrow> butlast (last bs) = []"
    by (cases "last bs") auto
  ultimately show ?thesis by (simp add: blocks_pop_back_def)
qed

lemma concat_blocks_pop_front:
  "bs \<noteq> [] \<Longrightarrow> hd bs \<noteq> [] \<Longrightarrow> concat (blocks_pop_front bs) = tl (concat bs)"
proof -
  assume a: "bs \<noteq> []" "hd bs \<noteq> []"
  have "tl (concat bs) = tl (hd bs) @ concat (tl bs)"
    using a by (simp add: concat_hd_tl)
  moreover have "length (hd bs) = 1 \<Longrightarrow> tl (hd bs) = []"
    by (cases "hd bs") auto
  ultimately show ?thesis by (simp add: blocks_pop_front_def)
qed

lemma blocks_pop_back_nonempty:
  "[] \<notin> set bs \<Longrightarrow> bs \<noteq> [] \<Longrightarrow> [] \<notin> set (blocks_pop_back bs)"
proof -
  assume a: "[] \<notin> set bs" "bs \<noteq> []"
  have "set (butlast bs) \<subseteq> set bs" by (meson in_set_butlastD subsetI)
  moreover have "length (last bs) \<noteq> 1 \<Longrightarrow> butlast (last bs) \<noteq> []"
    using a by (cases "last bs") (auto dest: last_in_set)
  ultimately show ?thesis using a by (auto simp: blocks_pop_back_def)
qed

lemma blocks_pop_front_nonempty:
  "[] \<notin> set bs \<Longrightarrow> bs \<noteq> [] \<Longrightarrow> [] \<notin> set (blocks_pop_front bs)"
proof -
  assume a: "[] \<notin> set bs" "bs \<noteq> []"
  have "set (tl bs) \<subseteq> set bs" by (meson list.set_sel(2) subsetI a(2))
  moreover have "length (hd bs) \<noteq> 1 \<Longrightarrow> tl (hd bs) \<noteq> []"
    using a by (cases "hd bs") (auto dest: hd_in_set)
  ultimately show ?thesis using a by (auto simp: blocks_pop_front_def)
qed

lemma wf_pop_back_core:
  assumes "wf_deque d" "total_size d \<noteq> 0"
  shows "wf_deque (d\<lparr>blocks := blocks_pop_back (blocks d), total_size := total_size d - 1\<rparr>)"
proof -
  have ne: "blocks d \<noteq> []" using assms by (simp add: wf_empty_iff)
  then have "last (blocks d) \<noteq> []" using assms(1) wf_hd_last by blast
  then show ?thesis using assms ne
    by (simp add: wf_deque_def concat_blocks_pop_back blocks_pop_back_nonempty)
qed

lemma wf_pop_front_core:
  assumes "wf_deque d" "total_size d \<noteq> 0"
  shows "wf_deque (d\<lparr>blocks := blocks_pop_front (blocks d), total_size := total_size d - 1\<rparr>)"
proof -
  have ne: "blocks d \<noteq> []" using assms by (simp add: wf_empty_iff)
  then have "hd (blocks d) \<noteq> []" using assms(1) wf_hd_last by blast
  then show ?thesis using assms ne
    by (simp add: wf_deque_def concat_blocks_pop_front blocks_pop_front_nonempty)
qed

lemma pop_back_correct:
  assumes "wf_deque d" "total_size d \<noteq> 0"
  shows "fst (pop_back d) = Inr () \<and> wf_deque (snd (pop_back d))
         \<and> elements (snd (pop_back d)) = butlast (elements d)
         \<and> total_size (snd (pop_back d)) = total_size d - 1"
proof -
  let ?d1 = "d\<lparr>blocks := blocks_pop_back (blocks d), total_size := total_size d - 1\<rparr>"
  have ne: "blocks d \<noteq> []" using assms by (simp add: wf_empty_iff)
  then have "last (blocks d) \<noteq> []" using assms(1) wf_hd_last by blast
  then have "elements ?d1 = butlast (elements d)"
    using ne by (simp add: elements_def concat_blocks_pop_back)
  then have "elements (Balance ?d1) = butlast (elements d)"
    by (simp only: elements_Balance)
  moreover have "wf_deque (Balance ?d1)"
    by (rule wf_Balance [OF wf_pop_back_core [OF assms]])
  moreover have "total_size (Balance ?d1) = total_size d - 1"
    by (simp add: total_size_Balance)
  ultimately show ?thesis by (simp add: pop_back_eq [OF assms])
qed

lemma pop_front_correct:
  assumes "wf_deque d" "total_size d \<noteq> 0"
  shows "fst (pop_front d) = Inr () \<and> wf_deque (snd (pop_front d))
         \<and> elements (snd (pop_front d)) = tl (elements d)
         \<and> total_size (snd (pop_front d)) = total_size d - 1"
proof -
  let ?d1 = "d\<lparr>blocks := blocks_pop_front (blocks d), total_size := total_size d - 1\<rparr>"
  have ne: "blocks d \<noteq> []" using assms by (simp add: wf_empty_iff)
  then have "hd (blocks d) \<noteq> []" using assms(1) wf_hd_last by blast
  then have "elements ?d1 = tl (elements d)"
    using ne by (simp add: elements_def concat_blocks_pop_front)
  then have "elements (Balance ?d1) = tl (elements d)"
    by (simp only: elements_Balance)
  moreover have "wf_deque (Balance ?d1)"
    by (rule wf_Balance [OF wf_pop_front_core [OF assms]])
  moreover have "total_size (Balance ?d1) = total_size d - 1"
    by (simp add: total_size_Balance)
  ultimately show ?thesis by (simp add: pop_front_eq [OF assms])
qed

lemma push_back_correct:
  assumes "wf_deque d"
  shows "wf_deque (push_back d v) \<and> elements (push_back d v) = elements d @ [v]
         \<and> total_size (push_back d v) = total_size d + 1"
proof -
  define bs1 where "bs1 = (if blocks d = [] \<or> length (last (blocks d)) \<ge> block_size d
                           then blocks d @ [[]] else blocks d)"
  define d1 where "d1 = d\<lparr>blocks := butlast bs1 @ [last bs1 @ [v]],
                            total_size := total_size d + 1\<rparr>"
  have pb: "push_back d v = Balance d1"
    by (simp add: push_back_def bs1_def d1_def Let_def)
  have ne: "bs1 \<noteq> []" by (simp add: bs1_def)
  have cb: "concat bs1 = concat (blocks d)" by (simp add: bs1_def)
  have "concat (butlast bs1 @ [last bs1 @ [v]]) = (concat (butlast bs1) @ last bs1) @ [v]"
    by simp
  also have "\<dots> = concat bs1 @ [v]"
    by (simp only: concat_butlast_last [OF ne, symmetric])
  finally have c: "concat (blocks d1) = concat (blocks d) @ [v]"
    by (simp add: d1_def cb)
  have "set (butlast bs1) \<subseteq> set (blocks d)"
    by (auto simp: bs1_def dest: in_set_butlastD)
  then have n: "[] \<notin> set (blocks d1)"
    using assms by (auto simp: wf_deque_def d1_def)
  have "length (concat (blocks d1)) = length (concat (blocks d)) + 1"
    by (simp only: c) simp
  moreover have "total_size d1 = total_size d + 1" by (simp add: d1_def)
  ultimately have "total_size d1 = length (concat (blocks d1))"
    using assms by (simp add: wf_deque_def)
  then have "wf_deque d1" using n by (simp add: wf_deque_def)
  then have "wf_deque (Balance d1)" by (rule wf_Balance)
  moreover have "elements (Balance d1) = elements d @ [v]"
    by (simp only: elements_def concat_blocks_Balance c)
  moreover have "total_size (Balance d1) = total_size d + 1"
    by (simp add: total_size_Balance d1_def)
  ultimately show ?thesis by (simp add: pb)
qed

lemma push_front_correct:
  assumes "wf_deque d"
  shows "wf_deque (push_front d v) \<and> elements (push_front d v) = v # elements d
         \<and> total_size (push_front d v) = total_size d + 1"
proof -
  define bs1 where "bs1 = (if blocks d = [] \<or> length (hd (blocks d)) \<ge> block_size d
                           then [] # blocks d else blocks d)"
  define d1 where "d1 = d\<lparr>blocks := (v # hd bs1) # tl bs1,
                            total_size := total_size d + 1\<rparr>"
  have pb: "push_front d v = Balance d1"
    by (simp add: push_front_def bs1_def d1_def Let_def)
  have ne: "bs1 \<noteq> []" by (simp add: bs1_def)
  have cb: "concat bs1 = concat (blocks d)" by (simp add: bs1_def)
  have "concat ((v # hd bs1) # tl bs1) = v # (hd bs1 @ concat (tl bs1))"
    by simp
  also have "\<dots> = v # concat bs1"
    by (simp only: concat_hd_tl [OF ne, symmetric])
  finally have c: "concat (blocks d1) = v # concat (blocks d)"
    by (simp add: d1_def cb)
  have "set (tl bs1) \<subseteq> set (blocks d)"
    by (auto simp: bs1_def dest: list.set_sel(2) [rotated])
  then have n: "[] \<notin> set (blocks d1)"
    using assms by (auto simp: wf_deque_def d1_def)
  have "length (concat (blocks d1)) = length (concat (blocks d)) + 1"
    by (simp only: c) simp
  moreover have "total_size d1 = total_size d + 1" by (simp add: d1_def)
  ultimately have "total_size d1 = length (concat (blocks d1))"
    using assms by (simp add: wf_deque_def)
  then have "wf_deque d1" using n by (simp add: wf_deque_def)
  then have "wf_deque (Balance d1)" by (rule wf_Balance)
  moreover have "elements (Balance d1) = v # elements d"
    by (simp only: elements_def concat_blocks_Balance c)
  moreover have "total_size (Balance d1) = total_size d + 1"
    by (simp add: total_size_Balance d1_def)
  ultimately show ?thesis by (simp add: pb)
qed

text \<open>
  What \<open>front()\<close>, \<open>back()\<close>, \<open>pop_back()\<close> and \<open>pop_front()\<close> do on a well-formed
  deque. They fail exactly when \<open>size()\<close> is 0; the exception is \<open>std::out_of_range\<close>,
  and the deque stays as it is. Otherwise \<open>front()\<close> and \<open>back()\<close> return the first
  and last element; a pop removes the last (first) item of the last (first) block and
  the block itself when that was its only item (\<open>blocks_pop_back\<close>,
  \<open>blocks_pop_front\<close>), decrements \<open>total_size\<close> and runs \<open>Balance\<close>: the element
  sequence loses its last (first) element, \<open>size()\<close> drops by one and no block is left
  empty.
\<close>

theorem front_back_pop:
  assumes "wf_deque d"
  shows "front_deque d = (if size_deque d = 0 then Inl Out_of_range else Inr (hd (elements d)))
       \<and> back_deque d = (if size_deque d = 0 then Inl Out_of_range else Inr (last (elements d)))
       \<and> pop_back d =
           (if size_deque d = 0 then (Inl Out_of_range, d)
            else (Inr (), Balance (d\<lparr>blocks := blocks_pop_back (blocks d),
                                       total_size := total_size d - 1\<rparr>)))
       \<and> pop_front d =
           (if size_deque d = 0 then (Inl Out_of_range, d)
            else (Inr (), Balance (d\<lparr>blocks := blocks_pop_front (blocks d),
                                       total_size := total_size d - 1\<rparr>)))
       \<and> (size_deque d \<noteq> 0 \<longrightarrow>
             elements (snd (pop_back d)) = butlast (elements d)
           \<and> size_deque (snd (pop_back d)) = size_deque d - 1
           \<and> [] \<notin> set (blocks (snd (pop_back d)))
           \<and> elements (snd (pop_front d)) = tl (elements d)
           \<and> size_deque (snd (pop_front d)) = size_deque d - 1
           \<and> [] \<notin> set (blocks (snd (pop_front d))))"
proof (cases "total_size d = 0")
  case True
  then have "blocks d = []" using assms by (simp add: wf_empty_iff)
  then show ?thesis using True
    by (simp add: front_deque_def back_deque_def pop_back_def pop_front_def
                  size_deque_def empty_deque_def)
next
  case False
  then have ne: "blocks d \<noteq> []" using assms by (simp add: wf_empty_iff)
  then have hl: "hd (blocks d) \<noteq> []" "last (blocks d) \<noteq> []"
    using assms wf_hd_last by blast+
  have "front_deque d = Inr (hd (elements d))"
    using ne hl by (simp add: front_deque_def dl_front_def elements_def hd_concat)
  moreover have "back_deque d = Inr (last (elements d))"
    using ne hl by (simp add: back_deque_def dl_back_def elements_def last_concat_blocks)
  moreover note pop_back_eq [OF assms False] pop_front_eq [OF assms False]
  moreover have "[] \<notin> set (blocks (snd (pop_back d)))"
       "[] \<notin> set (blocks (snd (pop_front d)))"
    using pop_back_correct [OF assms False] pop_front_correct [OF assms False]
    by (simp_all add: wf_deque_def)
  ultimately show ?thesis
    using False pop_back_correct [OF assms False] pop_front_correct [OF assms False]
    by (simp add: size_deque_def)
qed

theorem front_back_pop_witness:
  "wf_deque \<lparr>blocks = [[1, 2], [3::nat]], total_size = 3, block_size = 2\<rparr>
   \<and> front_deque \<lparr>blocks = [[1, 2], [3::nat]], total_size = 3, block_size = 2\<rparr> = Inr 1
   \<and> back_deque \<lparr>blocks = [[1, 2], [3::nat]], total_size = 3, block_size = 2\<rparr> = Inr 3
   \<and> pop_back \<lparr>blocks = [[1, 2], [3::nat]], total_size = 3, block_size = 2\<rparr>
       = (Inr (), \<lparr>blocks = [[1, 2]], total_size = 2, block_size = 2\<rparr>)
   \<and> pop_front \<lparr>blocks = [[1, 2], [3::nat]], total_size = 3, block_size = 2\<rparr>
       = (Inr (), \<lparr>blocks = [[2], [3]], total_size = 2, block_size = 2\<rparr>)"
proof -
  let ?d = "\<lparr>blocks = [[1, 2], [3::nat]], total_size = 3, block_size = 2\<rparr>"
  have w: "wf_deque ?d" by (simp add: wf_deque_def)
  have "Balance (?d\<lparr>blocks := blocks_pop_back (blocks ?d), total_size := total_size ?d - 1\<rparr>)
          = \<lparr>blocks = [[1, 2]], total_size = 2, block_size = 2\<rparr>"
    by code_simp
  moreover
  have "Balance (?d\<lparr>blocks := blocks_pop_front (blocks ?d), total_size := total_size ?d - 1\<rparr>)
          = \<lparr>blocks = [[2], [3]], total_size = 2, block_size = 2\<rparr>"
    by code_simp
  ultimately show ?thesis
    using front_back_pop [OF w] w by (simp add: size_deque_def elements_def)
qed

text \<open>
  Claim C3. The four calls are to fail with the empty-container exception exactly when
  \<open>size()\<close> is 0, and the comment above \<open>front()\<close> says the same: \<open>throw
  container_is_empty when the container is empty\<close>. On a deque of size 0 the code
  does fail, but with another exception: \<open>front()\<close>, \<open>back()\<close>, \<open>pop_back()\<close> and
  \<open>pop_front()\<close> of the initial, empty deque throw \<open>std::out_of_range\<close>, not
  \<open>container_is_empty\<close> (which \<open>exceptions.hpp\<close> defines and \<open>ddeqquee.hpp\<close> throws in
  the same four places). The rest of the claim is what \<open>front_back_pop\<close> proves.
\<close>

theorem empty_deque_throws_out_of_range:
  "size_deque (deque_init :: nat deque) = 0
   \<and> front_deque (deque_init :: nat deque) = Inl Out_of_range
   \<and> back_deque (deque_init :: nat deque) = Inl Out_of_range
   \<and> pop_back (deque_init :: nat deque) = (Inl Out_of_range, deque_init)
   \<and> pop_front (deque_init :: nat deque) = (Inl Out_of_range, deque_init)
   \<and> front_deque (deque_init :: nat deque) \<noteq> Inl Container_is_empty
   \<and> back_deque (deque_init :: nat deque) \<noteq> Inl Container_is_empty
   \<and> fst (pop_back (deque_init :: nat deque)) \<noteq> Inl Container_is_empty
   \<and> fst (pop_front (deque_init :: nat deque)) \<noteq> Inl Container_is_empty"
  by (simp add: front_deque_def back_deque_def pop_back_def pop_front_def
                size_deque_def empty_deque_def deque_init_def)

section \<open>The range of a deque\<close>

text \<open>
  Claim C10. On a well-formed deque \<open>begin()\<close> equals \<open>end()\<close> exactly when the deque
  is empty. Both are then the iterator of two null pointers. On a deque that is not
  empty \<open>begin()\<close> is the first item of the first block and \<open>end()\<close> is the
  past-the-last-item position (the null item pointer) of the tail block.
\<close>

theorem begin_end_deque:
  assumes "wf_deque d"
  shows "(begin_deque d = end_deque d \<longleftrightarrow> empty_deque d)
       \<and> (empty_deque d \<longrightarrow>
             begin_deque d = \<lparr>item_it = None, block_it = None\<rparr>
           \<and> end_deque d = \<lparr>item_it = None, block_it = None\<rparr>)
       \<and> (\<not> empty_deque d \<longrightarrow>
             begin_deque d = \<lparr>item_it = Some 0, block_it = Some 0\<rparr>
           \<and> end_deque d = \<lparr>item_it = None, block_it = Some (length (blocks d) - 1)\<rparr>)"
proof (cases "total_size d = 0")
  case True
  then have "blocks d = []" using assms by (simp add: wf_empty_iff)
  then show ?thesis using True by (simp add: begin_deque_def end_deque_def empty_deque_def)
next
  case False
  then have ne: "blocks d \<noteq> []" using assms by (simp add: wf_empty_iff)
  then have "hd (blocks d) \<noteq> []" using assms wf_hd_last by blast
  then show ?thesis using False ne
    by (simp add: begin_deque_def end_deque_def empty_deque_def dl_begin_def dl_get_tail_def)
qed

theorem begin_end_deque_witness:
  "wf_deque \<lparr>blocks = [[1, 2], [3::nat]], total_size = 3, block_size = 2\<rparr>
   \<and> begin_deque \<lparr>blocks = [[1, 2], [3::nat]], total_size = 3, block_size = 2\<rparr>
       = \<lparr>item_it = Some 0, block_it = Some 0\<rparr>
   \<and> end_deque \<lparr>blocks = [[1, 2], [3::nat]], total_size = 3, block_size = 2\<rparr>
       = \<lparr>item_it = None, block_it = Some 1\<rparr>
   \<and> begin_deque \<lparr>blocks = [[1, 2], [3::nat]], total_size = 3, block_size = 2\<rparr>
       \<noteq> end_deque \<lparr>blocks = [[1, 2], [3::nat]], total_size = 3, block_size = 2\<rparr>
   \<and> wf_deque (deque_init :: nat deque)
   \<and> begin_deque (deque_init :: nat deque) = end_deque (deque_init :: nat deque)"
proof -
  let ?d = "\<lparr>blocks = [[1, 2], [3::nat]], total_size = 3, block_size = 2\<rparr>"
  have w: "wf_deque ?d" "wf_deque (deque_init :: nat deque)"
    by (simp_all add: wf_deque_def deque_init_def)
  show ?thesis
    using begin_end_deque [OF w(1)] begin_end_deque [OF w(2)] w
    by (simp add: empty_deque_def deque_init_def)
qed

section \<open>Iterator positions\<close>

text \<open>
  An iterator of a deque is valid when it refers to an item of a block, or is the
  past-the-last position of the tail block (\<open>end()\<close>), or, on a deque without blocks,
  is the null iterator. Its index is the number of elements before it. \<open>iter_at d p\<close>
  is the valid iterator of index \<open>p\<close>.
\<close>

definition block_start :: "'a list list \<Rightarrow> nat \<Rightarrow> nat" where
  "block_start bs b = length (concat (take b bs))"

definition valid_iter :: "'a deque \<Rightarrow> iterator \<Rightarrow> bool" where
  "valid_iter d it =
     (case block_it it of
        None \<Rightarrow> blocks d = [] \<and> item_it it = None
      | Some b \<Rightarrow>
          b < length (blocks d) \<and>
          (case item_it it of
             None \<Rightarrow> Suc b = length (blocks d)
           | Some k \<Rightarrow> k < length (blocks d ! b)))"

definition index_of :: "'a deque \<Rightarrow> iterator \<Rightarrow> nat" where
  "index_of d it =
     (case block_it it of
        None \<Rightarrow> 0
      | Some b \<Rightarrow>
          block_start (blocks d) b +
          (case item_it it of None \<Rightarrow> length (blocks d ! b) | Some k \<Rightarrow> k))"

fun locate :: "'a list list \<Rightarrow> nat \<Rightarrow> nat \<Rightarrow> iterator" where
  "locate [] b p = \<lparr>item_it = None, block_it = None\<rparr>"
| "locate (items # after) b p =
     (if p < length items then \<lparr>item_it = Some p, block_it = Some b\<rparr>
      else if after = [] then \<lparr>item_it = None, block_it = Some b\<rparr>
      else locate after (Suc b) (p - length items))"

definition iter_at :: "'a deque \<Rightarrow> nat \<Rightarrow> iterator" where
  "iter_at d p = locate (blocks d) 0 p"

lemma block_start_0 [simp]: "block_start bs 0 = 0"
  by (simp add: block_start_def)

lemma block_start_Suc:
  "b < length bs \<Longrightarrow> block_start bs (Suc b) = block_start bs b + length (bs ! b)"
  by (simp add: block_start_def take_Suc_conv_app_nth)

lemma block_start_length: "block_start bs (length bs) = length (concat bs)"
  by (simp add: block_start_def)

lemma block_start_mono: "a \<le> b \<Longrightarrow> block_start bs a \<le> block_start bs b"
proof -
  assume "a \<le> b"
  then have "take b bs = take a bs @ take (b - a) (drop a bs)"
    by (metis le_add_diff_inverse take_add)
  then show ?thesis by (simp add: block_start_def)
qed

lemma block_start_le: "block_start bs b \<le> length (concat bs)"
proof (cases "b \<le> length bs")
  case True
  then show ?thesis using block_start_mono [OF True, of bs] by (simp add: block_start_length)
next
  case False
  then show ?thesis by (simp add: block_start_def)
qed

lemma block_end_le:
  "b < length bs \<Longrightarrow> block_start bs b + length (bs ! b) \<le> length (concat bs)"
  using block_start_le [of bs "Suc b"] by (simp add: block_start_Suc)

lemma concat_drop_length:
  "length (concat (drop b bs)) = length (concat bs) - block_start bs b"
proof -
  have "length (concat bs) = length (concat (take b bs @ drop b bs))" by simp
  also have "\<dots> = block_start bs b + length (concat (drop b bs))"
    by (simp only: concat_append length_append block_start_def)
  finally show ?thesis by simp
qed

lemma locate_append:
  "rest \<noteq> [] \<Longrightarrow> length (concat pre) \<le> p \<Longrightarrow>
   locate (pre @ rest) b p = locate rest (b + length pre) (p - length (concat pre))"
proof (induction pre arbitrary: b p)
  case Nil
  then show ?case by simp
next
  case (Cons x pre)
  have "locate (pre @ rest) (Suc b) (p - length x)
          = locate rest (Suc b + length pre) (p - length x - length (concat pre))"
    using Cons.prems by (intro Cons.IH) auto
  then show ?case using Cons.prems by (simp add: diff_diff_left)
qed

lemma locate_drop:
  assumes "b < length bs" "block_start bs b \<le> p"
  shows "locate bs 0 p = locate (drop b bs) b (p - block_start bs b)"
proof -
  have "drop b bs \<noteq> []" using assms(1) by simp
  then have "locate (take b bs @ drop b bs) 0 p
               = locate (drop b bs) (0 + length (take b bs)) (p - length (concat (take b bs)))"
    using assms(2) by (intro locate_append) (simp_all add: block_start_def)
  then show ?thesis using assms(1) by (simp add: block_start_def)
qed

lemma locate_item:
  assumes "b < length bs" "k < length (bs ! b)"
  shows "locate bs 0 (block_start bs b + k) = \<lparr>item_it = Some k, block_it = Some b\<rparr>"
proof -
  have "drop b bs = bs ! b # drop (Suc b) bs"
    using assms(1) by (simp add: Cons_nth_drop_Suc)
  then show ?thesis using locate_drop [OF assms(1), of "block_start bs b + k"] assms(2)
    by simp
qed

lemma locate_end:
  assumes "bs \<noteq> []"
  shows "locate bs 0 (length (concat bs)) = \<lparr>item_it = None, block_it = Some (length bs - 1)\<rparr>"
proof -
  let ?b = "length bs - 1"
  have b: "?b < length bs" using assms by simp
  have d: "drop ?b bs = [bs ! ?b]"
    using assms b by (metis Cons_nth_drop_Suc Suc_diff_1 drop_all length_greater_0_conv order_refl)
  have "length (concat bs) - block_start bs ?b = length (bs ! ?b)"
    using concat_drop_length [of ?b bs] d by simp
  then show ?thesis
    using locate_drop [OF b block_start_le] d by simp
qed

lemma position_in_block:
  "p < length (concat bs) \<Longrightarrow>
   \<exists>b k. b < length bs \<and> k < length (bs ! b) \<and> p = block_start bs b + k"
proof (induction bs arbitrary: p)
  case Nil
  then show ?case by simp
next
  case (Cons x bs)
  show ?case
  proof (cases "p < length x")
    case True
    then have "0 < length (x # bs) \<and> p < length ((x # bs) ! 0)
               \<and> p = block_start (x # bs) 0 + p" by simp
    then show ?thesis by blast
  next
    case False
    then have "p - length x < length (concat bs)" using Cons.prems by auto
    then obtain b k where bk: "b < length bs" "k < length (bs ! b)"
        "p - length x = block_start bs b + k"
      using Cons.IH by blast
    then have "Suc b < length (x # bs) \<and> k < length ((x # bs) ! Suc b)
               \<and> p = block_start (x # bs) (Suc b) + k"
      using False by (simp add: block_start_def)
    then show ?thesis by blast
  qed
qed

lemma iter_at_item:
  "b < length (blocks d) \<Longrightarrow> k < length (blocks d ! b) \<Longrightarrow>
   iter_at d (block_start (blocks d) b + k) = \<lparr>item_it = Some k, block_it = Some b\<rparr>"
  by (simp add: iter_at_def locate_item)

lemma iter_at_end:
  "blocks d \<noteq> [] \<Longrightarrow>
   iter_at d (length (concat (blocks d)))
     = \<lparr>item_it = None, block_it = Some (length (blocks d) - 1)\<rparr>"
  by (simp add: iter_at_def locate_end)

lemma valid_iter_iter_at:
  assumes "valid_iter d it"
  shows "it = iter_at d (index_of d it) \<and> index_of d it \<le> length (concat (blocks d))"
proof (cases "block_it it")
  case None
  then show ?thesis using assms
    by (cases it) (simp add: valid_iter_def index_of_def iter_at_def)
next
  case (Some b)
  then have b: "b < length (blocks d)" using assms by (simp add: valid_iter_def)
  show ?thesis
  proof (cases "item_it it")
    case None
    then have last: "Suc b = length (blocks d)" using assms Some by (simp add: valid_iter_def)
    then have "index_of d it = length (concat (blocks d))"
      using Some None block_start_Suc [OF b] block_start_length [of "blocks d"]
      by (simp add: index_of_def)
    moreover have "blocks d \<noteq> []" using b by auto
    ultimately show ?thesis using iter_at_end [of d] Some None last by (cases it) simp
  next
    case (Some k)
    then have k: "k < length (blocks d ! b)"
      using assms \<open>block_it it = Some b\<close> by (simp add: valid_iter_def)
    have "index_of d it = block_start (blocks d) b + k"
      using Some \<open>block_it it = Some b\<close> by (simp add: index_of_def)
    then show ?thesis
      using iter_at_item [OF b k] Some \<open>block_it it = Some b\<close> block_end_le [OF b] k
      by (cases it) simp
  qed
qed

lemma iter_at_valid:
  assumes "p \<le> length (concat (blocks d))"
  shows "valid_iter d (iter_at d p) \<and> index_of d (iter_at d p) = p"
proof (cases "p < length (concat (blocks d))")
  case True
  then obtain b k where bk: "b < length (blocks d)" "k < length (blocks d ! b)"
      "p = block_start (blocks d) b + k"
    using position_in_block by blast
  then show ?thesis using iter_at_item [OF bk(1,2)]
    by (simp add: valid_iter_def index_of_def)
next
  case False
  then have p: "p = length (concat (blocks d))" using assms by simp
  show ?thesis
  proof (cases "blocks d = []")
    case True
    then show ?thesis using p by (simp add: iter_at_def valid_iter_def index_of_def)
  next
    case False
    then have b: "length (blocks d) - 1 < length (blocks d)" by simp
    have "block_start (blocks d) (length (blocks d) - 1)
            + length (blocks d ! (length (blocks d) - 1)) = length (concat (blocks d))"
      using block_start_Suc [OF b] False block_start_length [of "blocks d"] by simp
    then show ?thesis using p iter_at_end [OF False] False
      by (simp add: valid_iter_def index_of_def)
  qed
qed

lemma concat_nth_block:
  assumes "b < length bs" "k < length (bs ! b)"
  shows "concat bs ! (block_start bs b + k) = bs ! b ! k"
proof -
  have "concat bs = concat (take b bs) @ bs ! b @ concat (drop (Suc b) bs)"
    using assms(1) by (metis concat.simps(2) concat_append id_take_nth_drop)
  then have "concat bs ! (block_start bs b + k)
               = (concat (take b bs) @ bs ! b @ concat (drop (Suc b) bs))
                   ! (length (concat (take b bs)) + k)"
    by (simp add: block_start_def)
  also have "\<dots> = bs ! b ! k"
    using assms(2) by (simp add: nth_append)
  finally show ?thesis .
qed

text \<open>
  Claim C2. On a well-formed deque, \<open>at(i)\<close> with \<open>i < size()\<close> returns the element
  at position \<open>i\<close> of the element sequence. The walk is \<open>at_loop\<close>: it adds up the
  item counts of the blocks until it reaches the block \<open>b\<close> that holds position \<open>i\<close>,
  then advances from the block's first item to the local offset \<open>k\<close>. With
  \<open>i \<ge> size()\<close> the call throws \<open>std::out_of_range\<close>, the exception by which the code
  signals an index out of bound.
\<close>

theorem at_deque_correct:
  assumes "wf_deque d"
  shows "at_deque d i = (if i < size_deque d then Inr (elements d ! i) else Inl Out_of_range)
       \<and> (i < size_deque d \<longrightarrow>
            (\<exists>b k. b < length (blocks d) \<and> k < length (blocks d ! b)
                 \<and> i = block_start (blocks d) b + k
                 \<and> at_deque d i = Inr (blocks d ! b ! k)))"
proof -
  have tot: "total_size d = length (concat (blocks d))"
    using assms by (simp add: wf_deque_def)
  have a: "at_deque d i = (if i < size_deque d then Inr (elements d ! i) else Inl Out_of_range)"
    using at_loop_correct [of 0 i "blocks d"] tot
    by (simp add: at_deque_def size_deque_def elements_def)
  have "\<exists>b k. b < length (blocks d) \<and> k < length (blocks d ! b)
            \<and> i = block_start (blocks d) b + k \<and> at_deque d i = Inr (blocks d ! b ! k)"
    if lt: "i < size_deque d"
  proof -
    obtain b k where bk: "b < length (blocks d)" "k < length (blocks d ! b)"
        "i = block_start (blocks d) b + k"
      using lt tot position_in_block [of i "blocks d"] by (auto simp: size_deque_def)
    have "concat (blocks d) ! i = blocks d ! b ! k"
      using bk by (simp add: concat_nth_block)
    then show ?thesis using a lt bk by (auto simp: elements_def)
  qed
  then show ?thesis using a by blast
qed

theorem at_deque_correct_witness:
  "wf_deque \<lparr>blocks = [[1, 2], [3::nat]], total_size = 3, block_size = 2\<rparr>
   \<and> at_deque \<lparr>blocks = [[1, 2], [3::nat]], total_size = 3, block_size = 2\<rparr> 2 = Inr 3
   \<and> at_deque \<lparr>blocks = [[1, 2], [3::nat]], total_size = 3, block_size = 2\<rparr> 3
       = Inl Out_of_range"
proof -
  let ?d = "\<lparr>blocks = [[1, 2], [3::nat]], total_size = 3, block_size = 2\<rparr>"
  have w: "wf_deque ?d" by (simp add: wf_deque_def)
  show ?thesis
    using at_deque_correct [OF w, of 2] at_deque_correct [OF w, of 3] w
    by (simp add: size_deque_def elements_def)
qed

section \<open>Iterator arithmetic\<close>

lemma plus_loop_locate:
  "rest \<noteq> [] \<Longrightarrow> [] \<notin> set rest \<Longrightarrow> 0 \<le> r \<Longrightarrow> nat r \<le> length (concat rest) \<Longrightarrow>
   plus_loop rest b r = Inr (locate rest b (nat r))"
proof (induction rest arbitrary: b r)
  case Nil
  then show ?case by simp
next
  case (Cons items after)
  have ne: "items \<noteq> []" using Cons.prems(2) by auto
  show ?case
  proof (cases "r < int (length items)")
    case True
    then have "dl_advance items (Some 0) (nat r) = Inr (Some (nat r))"
      using dl_advance_Some [of 0 "nat r" items] Cons.prems(3) by simp
    then show ?thesis using True ne Cons.prems(3) by (auto simp: dl_begin_def)
  next
    case False
    then have pos: "r > 0" using ne by (cases items) auto
    show ?thesis
    proof (cases "after = []")
      case True
      then have "r = int (length items)" using False Cons.prems(4) by simp
      then show ?thesis using True pos by simp
    next
      case False
      have "plus_loop after (Suc b) (r - int (length items))
              = Inr (locate after (Suc b) (nat (r - int (length items))))"
        using False Cons.prems \<open>\<not> r < int (length items)\<close>
        by (intro Cons.IH) auto
      moreover have "nat (r - int (length items)) = nat r - length items"
        by simp
      ultimately show ?thesis using False pos \<open>\<not> r < int (length items)\<close>
        by (simp add: nat_less_iff)
    qed
  qed
qed

lemma plus_nonneg_iter_at:
  assumes ne: "[] \<notin> set (blocks d)" and n: "0 \<le> n"
      and le: "p + nat n \<le> length (concat (blocks d))"
  shows "plus_nonneg d (iter_at d p) n = Inr (iter_at d (p + nat n))"
proof (cases "n = 0")
  case True
  then show ?thesis by (simp add: plus_nonneg_def)
next
  case False
  then have npos: "0 < n" using n by simp
  then have "p < length (concat (blocks d))" using le by simp
  then obtain b k where bk: "b < length (blocks d)" "k < length (blocks d ! b)"
      "p = block_start (blocks d) b + k"
    using position_in_block by blast
  let ?bs = "blocks d"
  let ?len = "length (?bs ! b)"
  have it: "iter_at d p = \<lparr>item_it = Some k, block_it = Some b\<rparr>"
    using iter_at_item [OF bk(1,2)] bk(3) by simp
  have dist: "dl_distance (?bs ! b) (Some k) None = Inr (?len - k)"
    using bk(2) by (rule dl_distance_to_end)
  show ?thesis
  proof (cases "n < int (?len - k)")
    case True
    then have kn: "k + nat n < ?len" using npos by linarith
    then have "dl_advance (?bs ! b) (Some k) (nat n) = Inr (Some (k + nat n))"
      by (rule dl_advance_Some)
    moreover have "iter_at d (p + nat n) = \<lparr>item_it = Some (k + nat n), block_it = Some b\<rparr>"
      using iter_at_item [OF bk(1) kn] bk(3) by (simp add: add.assoc)
    ultimately show ?thesis using False True it dist
      by (simp add: plus_nonneg_def)
  next
    case False
    note far = this
    define remain where "remain = n - int (?len - k)"
    have r0: "0 \<le> remain" using far by (simp add: remain_def)
    have pn: "p + nat n = block_start ?bs (Suc b) + nat remain"
      using bk far npos by (simp add: block_start_Suc remain_def)
    have bsne: "?bs \<noteq> []" using bk(1) by auto
    show ?thesis
    proof (cases "Suc b < length ?bs")
      case True
      then have nt: "dl_get_tail ?bs \<noteq> Some b" using bsne by (auto simp: dl_get_tail_def)
      have nx: "dl_next ?bs b = Some (Suc b)" using True by (simp add: dl_next_def)
      have "nat remain \<le> length (concat (drop (Suc b) ?bs))"
        using pn le by (simp add: concat_drop_length)
      moreover have "drop (Suc b) ?bs \<noteq> []" using True by simp
      moreover have "[] \<notin> set (drop (Suc b) ?bs)"
        using ne by (meson in_set_dropD)
      ultimately have "plus_loop (drop (Suc b) ?bs) (Suc b) remain
                         = Inr (locate (drop (Suc b) ?bs) (Suc b) (nat remain))"
        using r0 by (intro plus_loop_locate)
      moreover have "iter_at d (p + nat n) = locate (drop (Suc b) ?bs) (Suc b) (nat remain)"
        unfolding iter_at_def using locate_drop [OF True, of "p + nat n"] pn by simp
      ultimately show ?thesis using \<open>n \<noteq> 0\<close> far it dist nt nx
        by (simp add: plus_nonneg_def remain_def Let_def)
    next
      case False
      then have last: "Suc b = length ?bs" using bk(1) by simp
      then have tl: "dl_get_tail ?bs = Some b" using bsne by (auto simp: dl_get_tail_def)
      have "block_start ?bs (Suc b) = length (concat ?bs)"
        using last block_start_length [of ?bs] by simp
      then have "remain = 0" and tot: "p + nat n = length (concat ?bs)"
        using pn le r0 by simp_all
      then show ?thesis using \<open>n \<noteq> 0\<close> far it dist tl iter_at_end [OF bsne] last bsne
        by (simp add: plus_nonneg_def remain_def Let_def end_deque_def)
    qed
  qed
qed

lemma iter_inc_iter_at:
  assumes ne: "[] \<notin> set (blocks d)" and lt: "p < length (concat (blocks d))"
  shows "iter_inc d (iter_at d p) = Inr (iter_at d (Suc p))"
proof -
  obtain b k where bk: "b < length (blocks d)" "k < length (blocks d ! b)"
      "p = block_start (blocks d) b + k"
    using lt position_in_block by blast
  let ?bs = "blocks d"
  have it: "iter_at d p = \<lparr>item_it = Some k, block_it = Some b\<rparr>"
    using iter_at_item [OF bk(1,2)] bk(3) by simp
  have bsne: "?bs \<noteq> []" using bk(1) by auto
  show ?thesis
  proof (cases "Suc k < length (?bs ! b)")
    case True
    have "iter_at d (Suc p) = \<lparr>item_it = Some (Suc k), block_it = Some b\<rparr>"
      using iter_at_item [OF bk(1) True] bk(3) by simp
    then show ?thesis using True it by (simp add: iter_inc_def dl_next_def)
  next
    case False
    then have kl: "Suc k = length (?bs ! b)" using bk(2) by simp
    then have sp: "Suc p = block_start ?bs (Suc b)" using bk by (simp add: block_start_Suc)
    show ?thesis
    proof (cases "Suc b < length ?bs")
      case True
      then have nt: "dl_get_tail ?bs \<noteq> Some b" using bsne by (auto simp: dl_get_tail_def)
      have "?bs ! Suc b \<noteq> []" using ne True by (metis nth_mem)
      then have "iter_at d (Suc p) = \<lparr>item_it = Some 0, block_it = Some (Suc b)\<rparr>"
        using iter_at_item [OF True, of 0] sp by simp
      then show ?thesis using False it nt \<open>?bs ! Suc b \<noteq> []\<close>
        by (simp add: iter_inc_def dl_next_def dl_begin_def)
    next
      case False
      then have last: "Suc b = length ?bs" using bk(1) by simp
      then have tl: "dl_get_tail ?bs = Some b" using bsne by (auto simp: dl_get_tail_def)
      have "Suc p = length (concat ?bs)"
        using sp last block_start_length [of ?bs] by simp
      then show ?thesis using \<open>\<not> Suc k < length (?bs ! b)\<close> it tl iter_at_end [OF bsne] last
        by (simp add: iter_inc_def dl_next_def)
    qed
  qed
qed

lemma minus_loop_locate:
  "b < length bs \<Longrightarrow> [] \<notin> set bs \<Longrightarrow> 0 \<le> r \<Longrightarrow> nat r < block_start bs (Suc b) \<Longrightarrow>
   minus_loop bs b r = Inr (locate bs 0 (block_start bs (Suc b) - 1 - nat r))"
proof (induction b arbitrary: r)
  case 0
  then have ne: "bs ! 0 \<noteq> []" by (metis nth_mem)
  have lt: "nat r < length (bs ! 0)" using 0 by (simp add: block_start_Suc)
  then have "dl_retreat (bs ! 0) (Some (length (bs ! 0) - 1)) (nat r)
               = Inr (Some (length (bs ! 0) - 1 - nat r))"
    by (intro dl_retreat_Some) simp
  moreover have "locate bs 0 (block_start bs 0 + (length (bs ! 0) - 1 - nat r))
                   = \<lparr>item_it = Some (length (bs ! 0) - 1 - nat r), block_it = Some 0\<rparr>"
    using 0 lt by (intro locate_item) auto
  ultimately show ?case using 0 lt ne
    by (subst minus_loop.simps) (simp add: dl_get_tail_def block_start_Suc nat_less_iff)
next
  case (Suc b)
  let ?len = "length (bs ! Suc b)"
  have ne: "bs ! Suc b \<noteq> []" using Suc.prems by (metis nth_mem)
  have st: "block_start bs (Suc (Suc b)) = block_start bs (Suc b) + ?len"
    using Suc.prems(1) by (rule block_start_Suc)
  show ?case
  proof (cases "r > 0 \<and> \<not> r < int ?len")
    case True
    have "minus_loop bs b (r - int ?len)
            = Inr (locate bs 0 (block_start bs (Suc b) - 1 - nat (r - int ?len)))"
      using Suc.prems True st by (intro Suc.IH) auto
    moreover have "block_start bs (Suc b) - 1 - nat (r - int ?len)
                     = block_start bs (Suc (Suc b)) - 1 - nat r"
      using Suc.prems(4) True st by linarith
    ultimately show ?thesis using True
      by (subst minus_loop.simps) simp
  next
    case False
    then have lt: "nat r < ?len" using Suc.prems(3) ne by (cases "r = 0") auto
    then have "dl_retreat (bs ! Suc b) (Some (?len - 1)) (nat r) = Inr (Some (?len - 1 - nat r))"
      by (intro dl_retreat_Some) simp
    moreover have "locate bs 0 (block_start bs (Suc b) + (?len - 1 - nat r))
                     = \<lparr>item_it = Some (?len - 1 - nat r), block_it = Some (Suc b)\<rparr>"
      using Suc.prems(1) lt by (intro locate_item) auto
    moreover have "block_start bs (Suc b) + (?len - 1 - nat r)
                     = block_start bs (Suc (Suc b)) - 1 - nat r"
      using st lt by simp
    ultimately show ?thesis using ne
      by (subst minus_loop.simps) (simp only: False if_False, simp add: dl_get_tail_def)
  qed
qed

lemma minus_walk_iter_at:
  assumes ne: "[] \<notin> set (blocks d)" and b: "b < length (blocks d)"
      and k: "k < length (blocks d ! b)" and r: "0 \<le> r"
      and le: "nat r \<le> block_start (blocks d) b + k"
  shows "minus_walk d \<lparr>item_it = Some k, block_it = Some b\<rparr> r
           = Inr (iter_at d (block_start (blocks d) b + k - nat r))"
proof -
  let ?bs = "blocks d"
  have bsne: "?bs \<noteq> []" using b by auto
  have blk: "?bs ! b \<noteq> []" using k by auto
  have dist: "dl_distance (?bs ! b) (dl_begin (?bs ! b)) (Some k) = Inr k"
    using dl_distance_Some [of 0 k "?bs ! b"] k blk by (simp add: dl_begin_def)
  show ?thesis
  proof (cases "r \<le> int k")
    case True
    then have "dl_retreat (?bs ! b) (Some k) (nat r) = Inr (Some (k - nat r))"
      by (intro dl_retreat_Some) simp
    moreover have "iter_at d (block_start ?bs b + (k - nat r))
                     = \<lparr>item_it = Some (k - nat r), block_it = Some b\<rparr>"
      using b k by (intro iter_at_item) auto
    moreover have "block_start ?bs b + (k - nat r) = block_start ?bs b + k - nat r"
      using True by simp
    ultimately show ?thesis using True dist
      by (simp add: minus_walk_def)
  next
    case False
    then have b0: "b \<noteq> 0" using le by (cases b) auto
    then have nb: "dl_begin ?bs \<noteq> Some b" by (simp add: dl_begin_def)
    have sb: "block_start ?bs (Suc (b - 1)) = block_start ?bs b" using b0 by simp
    have "minus_loop ?bs (b - 1) (r - int k - 1)
            = Inr (locate ?bs 0 (block_start ?bs (Suc (b - 1)) - 1 - nat (r - int k - 1)))"
      using b b0 ne False le sb by (intro minus_loop_locate) auto
    moreover have "block_start ?bs (Suc (b - 1)) - 1 - nat (r - int k - 1)
                     = block_start ?bs b + k - nat r"
      using False le sb by linarith
    ultimately show ?thesis using False dist nb
      by (simp add: minus_walk_def iter_at_def)
  qed
qed

lemma minus_nonneg_iter_at:
  assumes ne: "[] \<notin> set (blocks d)" and n: "0 \<le> n"
      and le: "p + nat n \<le> length (concat (blocks d))"
  shows "minus_nonneg d (iter_at d (p + nat n)) n = Inr (iter_at d p)"
proof (cases "n = 0")
  case True
  then show ?thesis by (simp add: minus_nonneg_def)
next
  case False
  then have npos: "0 < n" using n by simp
  let ?bs = "blocks d"
  let ?q = "p + nat n"
  have bsne: "?bs \<noteq> []" using le npos by auto
  show ?thesis
  proof (cases "?q = length (concat ?bs)")
    case True
    let ?b = "length ?bs - 1"
    let ?k = "length (?bs ! ?b) - 1"
    have b: "?b < length ?bs" using bsne by simp
    have blk: "?bs ! ?b \<noteq> []" using ne b by (metis nth_mem)
    have lastnth: "last ?bs = ?bs ! ?b" using bsne by (simp add: last_conv_nth)
    have e: "iter_at d ?q = end_deque d"
      using True iter_at_end [OF bsne] bsne by (simp add: end_deque_def dl_get_tail_def)
    have tot: "block_start ?bs ?b + length (?bs ! ?b) = length (concat ?bs)"
      using block_start_Suc [OF b] bsne block_start_length [of ?bs] by simp
    have "minus_walk d \<lparr>item_it = Some ?k, block_it = Some ?b\<rparr> (n - 1)
            = Inr (iter_at d (block_start ?bs ?b + ?k - nat (n - 1)))"
      using ne b blk npos True tot by (intro minus_walk_iter_at) auto
    moreover have "block_start ?bs ?b + ?k - nat (n - 1) = p"
      using True tot blk npos by (cases "?bs ! ?b") auto
    ultimately show ?thesis using False e bsne blk lastnth
      by (simp add: minus_nonneg_def dl_get_tail_def)
  next
    case False
    then have "?q < length (concat ?bs)" using le by simp
    then obtain b k where bk: "b < length ?bs" "k < length (?bs ! b)"
        "?q = block_start ?bs b + k"
      using position_in_block by blast
    have it: "iter_at d ?q = \<lparr>item_it = Some k, block_it = Some b\<rparr>"
      using iter_at_item [OF bk(1,2)] bk(3) by simp
    then have "iter_at d ?q \<noteq> end_deque d" by (auto simp: end_deque_def)
    moreover have "minus_walk d \<lparr>item_it = Some k, block_it = Some b\<rparr> n
                     = Inr (iter_at d (block_start ?bs b + k - nat n))"
      using ne bk n by (intro minus_walk_iter_at) auto
    moreover have "block_start ?bs b + k - nat n = p" using bk(3) by simp
    ultimately show ?thesis using \<open>n \<noteq> 0\<close> it by (simp add: minus_nonneg_def)
  qed
qed

text \<open>Prefix \<open>++\<close> applied \<open>n\<close> times; a throw ends the sequence.\<close>

primrec iter_inc_n :: "'a deque \<Rightarrow> nat \<Rightarrow> iterator \<Rightarrow> error + iterator" where
  "iter_inc_n d 0 it = Inr it"
| "iter_inc_n d (Suc n) it =
     (case iter_inc d it of Inl e \<Rightarrow> Inl e | Inr it' \<Rightarrow> iter_inc_n d n it')"

lemma iter_inc_n_iter_at:
  "[] \<notin> set (blocks d) \<Longrightarrow> p + n \<le> length (concat (blocks d)) \<Longrightarrow>
   iter_inc_n d n (iter_at d p) = Inr (iter_at d (p + n))"
proof (induction n arbitrary: p)
  case 0
  then show ?case by simp
next
  case (Suc n)
  then have "iter_inc d (iter_at d p) = Inr (iter_at d (Suc p))"
    by (intro iter_inc_iter_at) auto
  moreover have "iter_inc_n d n (iter_at d (Suc p)) = Inr (iter_at d (Suc p + n))"
    using Suc.prems by (intro Suc.IH) auto
  ultimately show ?case by simp
qed

text \<open>
  Claim C7. For a valid iterator \<open>it\<close> of a well-formed deque and \<open>n \<ge> 0\<close> with the
  target position in the range from \<open>begin()\<close> to \<open>end()\<close>: \<open>it + n\<close> returns the
  iterator that \<open>n\<close> prefix increments of \<open>it\<close> return, it is the valid iterator \<open>n\<close>
  positions on, and subtracting \<open>n\<close> from it returns \<open>it\<close>.
\<close>

theorem iterator_plus_minus:
  assumes "wf_deque d" "valid_iter d it" "index_of d it + n \<le> size_deque d"
  shows "iter_plus d it (int n) = iter_inc_n d n it
       \<and> (\<exists>it'. iter_plus d it (int n) = Inr it' \<and> valid_iter d it'
               \<and> index_of d it' = index_of d it + n
               \<and> iter_minus d it' (int n) = Inr it)"
proof -
  let ?p = "index_of d it"
  have ne: "[] \<notin> set (blocks d)" and tot: "?p + n \<le> length (concat (blocks d))"
    using assms by (simp_all add: wf_deque_def size_deque_def)
  have it: "it = iter_at d ?p" using valid_iter_iter_at [OF assms(2)] by simp
  have "plus_nonneg d (iter_at d ?p) (int n) = Inr (iter_at d (?p + nat (int n)))"
    using ne tot by (intro plus_nonneg_iter_at) auto
  then have plus: "iter_plus d it (int n) = Inr (iter_at d (?p + n))"
    using it by (simp add: iter_plus_def)
  have "iter_inc_n d n (iter_at d ?p) = Inr (iter_at d (?p + n))"
    using ne tot by (rule iter_inc_n_iter_at)
  then have inc: "iter_inc_n d n it = Inr (iter_at d (?p + n))"
    using it by simp
  have "minus_nonneg d (iter_at d (?p + nat (int n))) (int n) = Inr (iter_at d ?p)"
    using ne tot by (intro minus_nonneg_iter_at) auto
  then have minus: "iter_minus d (iter_at d (?p + n)) (int n) = Inr it"
    using it by (simp add: iter_minus_def)
  have "valid_iter d (iter_at d (?p + n)) \<and> index_of d (iter_at d (?p + n)) = ?p + n"
    using tot by (rule iter_at_valid)
  then show ?thesis using plus inc minus by simp
qed

theorem iterator_plus_minus_witness:
  "wf_deque \<lparr>blocks = [[1, 2], [3::nat]], total_size = 3, block_size = 2\<rparr>
   \<and> valid_iter \<lparr>blocks = [[1, 2], [3::nat]], total_size = 3, block_size = 2\<rparr>
        \<lparr>item_it = Some 1, block_it = Some 0\<rparr>
   \<and> iter_plus \<lparr>blocks = [[1, 2], [3::nat]], total_size = 3, block_size = 2\<rparr>
        \<lparr>item_it = Some 1, block_it = Some 0\<rparr> 2 = Inr \<lparr>item_it = None, block_it = Some 1\<rparr>
   \<and> iter_inc_n \<lparr>blocks = [[1, 2], [3::nat]], total_size = 3, block_size = 2\<rparr> 2
        \<lparr>item_it = Some 1, block_it = Some 0\<rparr> = Inr \<lparr>item_it = None, block_it = Some 1\<rparr>
   \<and> iter_minus \<lparr>blocks = [[1, 2], [3::nat]], total_size = 3, block_size = 2\<rparr>
        \<lparr>item_it = None, block_it = Some 1\<rparr> 2 = Inr \<lparr>item_it = Some 1, block_it = Some 0\<rparr>"
proof -
  let ?d = "\<lparr>blocks = [[1, 2], [3::nat]], total_size = 3, block_size = 2\<rparr>"
  let ?it = "\<lparr>item_it = Some 1, block_it = Some 0\<rparr>"
  have w: "wf_deque ?d" by (simp add: wf_deque_def)
  have v: "valid_iter ?d ?it" by (simp add: valid_iter_def)
  have i: "index_of ?d ?it + 2 \<le> size_deque ?d"
    by (simp add: index_of_def size_deque_def)
  have e: "iter_inc_n ?d 2 ?it = Inr \<lparr>item_it = None, block_it = Some 1\<rparr>"
    by code_simp
  show ?thesis
    using iterator_plus_minus [OF w v i] w v e by auto
qed

definition item_offset :: "'a list \<Rightarrow> nat option \<Rightarrow> nat" where
  "item_offset xs it = (case it of None \<Rightarrow> length xs | Some k \<Rightarrow> k)"

definition item_ok :: "'a list \<Rightarrow> nat option \<Rightarrow> bool" where
  "item_ok xs it = (case it of None \<Rightarrow> True | Some k \<Rightarrow> k < length xs)"

lemma item_offset_le: "item_ok xs it \<Longrightarrow> item_offset xs it \<le> length xs"
  by (cases it) (simp_all add: item_ok_def item_offset_def)

lemma item_offset_inj:
  "item_ok xs a \<Longrightarrow> item_ok xs b \<Longrightarrow> item_offset xs a = item_offset xs b \<Longrightarrow> a = b"
  by (cases a; cases b) (simp_all add: item_ok_def item_offset_def)

lemma dl_distance_valid:
  assumes "item_ok xs a" "item_ok xs t" "item_offset xs a \<le> item_offset xs t"
  shows "dl_distance xs a t = Inr (item_offset xs t - item_offset xs a)"
proof (cases a)
  case None
  then have "t = None" using assms by (cases t) (simp_all add: item_ok_def item_offset_def)
  then show ?thesis using None by simp
next
  case (Some i)
  show ?thesis
  proof (cases t)
    case None
    then show ?thesis using Some assms dl_distance_to_end [of i xs]
      by (simp add: item_ok_def item_offset_def)
  next
    case (Some j)
    then show ?thesis using \<open>a = Some i\<close> assms dl_distance_Some [of i j xs]
      by (simp add: item_ok_def item_offset_def)
  qed
qed

lemma same_block_walk_valid:
  assumes "item_ok xs a" "item_ok xs t"
  shows "same_block_walk xs a t acc =
           (if item_offset xs a \<le> item_offset xs t
            then (False, acc + (item_offset xs t - item_offset xs a))
            else (True, acc + (length xs - item_offset xs a)))"
  using assms
proof (induction xs a t acc rule: same_block_walk.induct)
  case (1 items temp target distance)
  show ?case
  proof (cases "temp = target")
    case True
    then show ?thesis by (subst same_block_walk.simps) simp
  next
    case False
    note neq = this
    show ?thesis
    proof (cases temp)
      case None
      then have "item_offset items target < item_offset items temp"
        using neq "1.prems"(2) by (cases target) (simp_all add: item_ok_def item_offset_def)
      then show ?thesis using None neq
        by (subst same_block_walk.simps) (simp add: item_offset_def)
    next
      case (Some k)
      then have k: "k < length items" using "1.prems"(1) by (simp add: item_ok_def)
      have ok: "item_ok items (dl_next items k)"
        by (simp add: item_ok_def dl_next_def)
      have off: "item_offset items (dl_next items k) = Suc k"
        using k by (auto simp: item_offset_def dl_next_def)
      have ne_off: "item_offset items target \<noteq> k"
        using neq Some "1.prems"(2) k
        by (cases target) (auto simp: item_ok_def item_offset_def)
      have "same_block_walk items (dl_next items k) target (distance + 1) =
              (if Suc k \<le> item_offset items target
               then (False, distance + 1 + (item_offset items target - Suc k))
               else (True, distance + 1 + (length items - Suc k)))"
        using "1.IH" [OF neq Some ok "1.prems"(2)] off by simp
      then show ?thesis using neq Some ne_off k
        by (subst same_block_walk.simps) (auto simp: item_offset_def)
    qed
  qed
qed

lemma block_walk_found:
  "tb \<le> target \<Longrightarrow> target < length bs \<Longrightarrow>
   block_walk (drop tb bs) tb target acc
     = (True, acc + (block_start bs target - block_start bs tb))"
proof (induction "target - tb" arbitrary: tb acc)
  case 0
  then have "tb = target" by simp
  then have "drop tb bs = bs ! target # drop (Suc target) bs"
    using 0 by (simp add: Cons_nth_drop_Suc)
  then show ?case using \<open>tb = target\<close> by simp
next
  case (Suc m)
  then have lt: "tb < target" by simp
  then have tbl: "tb < length bs" using Suc.prems by simp
  have d: "drop tb bs = bs ! tb # drop (Suc tb) bs"
    using tbl by (simp add: Cons_nth_drop_Suc)
  have "block_walk (drop (Suc tb) bs) (Suc tb) target (acc + length (bs ! tb))
          = (True, acc + length (bs ! tb) + (block_start bs target - block_start bs (Suc tb)))"
    using Suc lt by (intro Suc.hyps(1)) auto
  moreover have "block_start bs (Suc tb) \<le> block_start bs target"
    using lt by (intro block_start_mono) simp
  ultimately show ?case using d lt block_start_Suc [OF tbl] by simp
qed

lemma block_walk_not_found:
  "target < tb \<Longrightarrow> fst (block_walk rest tb target acc) = False"
  by (induction rest arbitrary: tb acc) auto

lemma valid_iter_block:
  assumes "valid_iter d it" "blocks d \<noteq> []"
  obtains b where "block_it it = Some b" "b < length (blocks d)"
    "item_ok (blocks d ! b) (item_it it)"
    "index_of d it = block_start (blocks d) b + item_offset (blocks d ! b) (item_it it)"
    "item_it it = None \<Longrightarrow> Suc b = length (blocks d)"
proof (cases "block_it it")
  case None
  then show ?thesis using assms by (simp add: valid_iter_def)
next
  case (Some b)
  then show ?thesis using assms that [of b]
    by (auto simp: valid_iter_def index_of_def item_ok_def item_offset_def split: option.splits)
qed

lemma index_of_block_order:
  assumes "valid_iter d a" "valid_iter d r" "block_it a = Some ba" "block_it r = Some br"
      and "ba < br"
  shows "index_of d a < block_start (blocks d) (Suc ba)"
    and "block_start (blocks d) (Suc ba) \<le> block_start (blocks d) br"
    and "block_start (blocks d) br \<le> index_of d r"
proof -
  have br: "br < length (blocks d)" using assms(2,4) by (simp add: valid_iter_def)
  then have ba: "ba < length (blocks d)" using assms(5) by simp
  have "item_it a \<noteq> None" using assms(1,3,5) br
    by (auto simp: valid_iter_def split: option.splits)
  then obtain k where k: "item_it a = Some k" by auto
  then have "k < length (blocks d ! ba)" using assms(1,3) by (simp add: valid_iter_def)
  then show "index_of d a < block_start (blocks d) (Suc ba)"
    using k assms(3) ba by (simp add: index_of_def block_start_Suc)
  show "block_start (blocks d) (Suc ba) \<le> block_start (blocks d) br"
    using assms(5) by (intro block_start_mono) simp
  show "block_start (blocks d) br \<le> index_of d r"
    using assms(4) by (simp add: index_of_def)
qed

lemma iter_diff_forward:
  assumes ne: "[] \<notin> set (blocks d)"
      and a: "block_it a = Some ba" "ba < length (blocks d)" "item_ok (blocks d ! ba) (item_it a)"
      and r: "block_it r = Some br" "br < length (blocks d)" "item_ok (blocks d ! br) (item_it r)"
      and lt: "br < ba"
  shows "dl_distance (blocks d ! br) (item_it r) None
           = Inr (length (blocks d ! br) - item_offset (blocks d ! br) (item_it r))"
    and "block_walk (drop (Suc br) (blocks d)) (Suc br) ba acc
           = (True, acc + (block_start (blocks d) ba - block_start (blocks d) (Suc br)))"
    and "dl_distance (blocks d ! ba) (dl_begin (blocks d ! ba)) (item_it a)
           = Inr (item_offset (blocks d ! ba) (item_it a))"
proof -
  let ?bs = "blocks d"
  have "item_ok (?bs ! br) None" by (simp add: item_ok_def)
  then show "dl_distance (?bs ! br) (item_it r) None
           = Inr (length (?bs ! br) - item_offset (?bs ! br) (item_it r))"
    using dl_distance_valid [OF r(3), of None] item_offset_le [OF r(3)]
    by (simp add: item_offset_def)
  show "block_walk (drop (Suc br) ?bs) (Suc br) ba acc
           = (True, acc + (block_start ?bs ba - block_start ?bs (Suc br)))"
    using lt a(2) by (intro block_walk_found) auto
  have "?bs ! ba \<noteq> []" using ne a(2) by (metis nth_mem)
  then have "dl_begin (?bs ! ba) = Some 0" "item_ok (?bs ! ba) (Some 0)"
    by (simp_all add: dl_begin_def item_ok_def)
  then show "dl_distance (?bs ! ba) (dl_begin (?bs ! ba)) (item_it a)
           = Inr (item_offset (?bs ! ba) (item_it a))"
    using dl_distance_valid [of "?bs ! ba" "Some 0" "item_it a"] a(3)
    by (simp add: item_offset_def)
qed

lemma iter_diff_valid:
  assumes ne: "[] \<notin> set (blocks d)" and bsne: "blocks d \<noteq> []"
      and va: "valid_iter d a" and vr: "valid_iter d r"
  shows "iter_diff d a r =
           Inr (if index_of d r \<le> index_of d a then index_of d a - index_of d r
                else neg_size_t (index_of d r - index_of d a))"
proof -
  let ?bs = "blocks d"
  obtain ba where a: "block_it a = Some ba" "ba < length ?bs"
      "item_ok (?bs ! ba) (item_it a)"
      "index_of d a = block_start ?bs ba + item_offset (?bs ! ba) (item_it a)"
    using valid_iter_block [OF va bsne] by metis
  obtain br where r: "block_it r = Some br" "br < length ?bs"
      "item_ok (?bs ! br) (item_it r)"
      "index_of d r = block_start ?bs br + item_offset (?bs ! br) (item_it r)"
    using valid_iter_block [OF vr bsne] by metis
  let ?oa = "item_offset (?bs ! ba) (item_it a)"
  let ?or = "item_offset (?bs ! br) (item_it r)"
  consider (same) "ba = br" | (fwd) "br < ba" | (bwd) "ba < br" by linarith
  then show ?thesis
  proof cases
    case same
    have w: "same_block_walk (?bs ! br) (item_it r) (item_it a) 0 =
               (if ?or \<le> item_offset (?bs ! br) (item_it a)
                then (False, 0 + (item_offset (?bs ! br) (item_it a) - ?or))
                else (True, 0 + (length (?bs ! br) - ?or)))"
      using r(3) a(3) same by (intro same_block_walk_valid) auto
    show ?thesis
    proof (cases "?or \<le> ?oa")
      case True
      then show ?thesis using w same a r by (simp add: iter_diff_def)
    next
      case False
      then have "dl_distance (?bs ! ba) (item_it a) (item_it r) = Inr (?or - ?oa)"
        using dl_distance_valid [of "?bs ! ba" "item_it a" "item_it r"] a(3) r(3) same
        by simp
      then show ?thesis using False w same a r by (simp add: iter_diff_def)
    qed
  next
    case fwd
    note f = iter_diff_forward [OF ne a(1,2,3) r(1,2,3) fwd]
    have o: "index_of d r < block_start ?bs (Suc br)"
        "block_start ?bs (Suc br) \<le> block_start ?bs ba"
        "block_start ?bs ba \<le> index_of d a"
      using index_of_block_order [OF vr va r(1) a(1) fwd] by auto
    have "length (?bs ! br) - ?or + (block_start ?bs ba - block_start ?bs (Suc br)) + ?oa
            = index_of d a - index_of d r"
      using o a(4) r(4) block_start_Suc [OF r(2)] by linarith
    then show ?thesis using fwd f a(1) r(1) o
      by (simp add: iter_diff_def)
  next
    case bwd
    note f = iter_diff_forward [OF ne r(1,2,3) a(1,2,3) bwd]
    have o: "index_of d a < block_start ?bs (Suc ba)"
        "block_start ?bs (Suc ba) \<le> block_start ?bs br"
        "block_start ?bs br \<le> index_of d r"
      using index_of_block_order [OF va vr a(1) r(1) bwd] by auto
    have nf: "\<And>acc. fst (block_walk (drop (Suc br) ?bs) (Suc br) ba acc) = False"
      using bwd by (intro block_walk_not_found) simp
    have d0: "dl_distance (?bs ! br) (item_it r) None = Inr (length (?bs ! br) - ?or)"
      using dl_distance_valid [OF r(3), of None] item_offset_le [OF r(3)]
      by (simp add: item_offset_def item_ok_def)
    have "length (?bs ! ba) - ?oa + (block_start ?bs br - block_start ?bs (Suc ba)) + ?or
            = index_of d r - index_of d a"
      using o a(4) r(4) block_start_Suc [OF a(2)] by linarith
    then show ?thesis using bwd f a(1) r(1) o d0 nf [of "length (?bs ! br) - ?or"]
      by (auto simp: iter_diff_def split: prod.splits)
  qed
qed

section \<open>Iterator difference\<close>

lemma begin_deque_iter_at:
  assumes "[] \<notin> set (blocks d)"
  shows "begin_deque d = iter_at d 0"
proof (cases "blocks d")
  case Nil
  then show ?thesis by (simp add: begin_deque_def iter_at_def)
next
  case (Cons x xs)
  then have "x \<noteq> []" using assms by auto
  then show ?thesis using Cons by (simp add: begin_deque_def iter_at_def dl_begin_def)
qed

lemma begin_deque_valid:
  assumes "[] \<notin> set (blocks d)"
  shows "valid_iter d (begin_deque d)" and "index_of d (begin_deque d) = 0"
  using iter_at_valid [of 0 d] begin_deque_iter_at [OF assms] by simp_all

lemma end_deque_iter_at: "end_deque d = iter_at d (length (concat (blocks d)))"
proof (cases "blocks d = []")
  case True
  then show ?thesis by (simp add: end_deque_def iter_at_def)
next
  case False
  then show ?thesis using iter_at_end [OF False] by (simp add: end_deque_def dl_get_tail_def)
qed

lemma end_deque_valid:
  shows "valid_iter d (end_deque d)" and "index_of d (end_deque d) = length (concat (blocks d))"
  using iter_at_valid [of "length (concat (blocks d))" d] end_deque_iter_at [of d] by simp_all

lemma begin_plus:
  assumes "[] \<notin> set (blocks d)" "i \<le> length (concat (blocks d))"
  shows "iter_plus d (begin_deque d) (int i) = Inr (iter_at d i)"
  using plus_nonneg_iter_at [OF assms(1), of "int i" 0] assms(2)
        begin_deque_iter_at [OF assms(1)]
  by (simp add: iter_plus_def)

lemma iter_diff_from_begin:
  assumes "[] \<notin> set (blocks d)" "blocks d \<noteq> []" "valid_iter d pos"
  shows "iter_diff d pos (begin_deque d) = Inr (index_of d pos)"
  using iter_diff_valid [OF assms(1,2,3) begin_deque_valid(1) [OF assms(1)]]
        begin_deque_valid(2) [OF assms(1)]
  by simp

lemma neg_size_t_small: "0 < x \<Longrightarrow> x < 2 ^ 64 \<Longrightarrow> neg_size_t x = 2 ^ 64 - x"
  by (simp add: neg_size_t_def)

text \<open>
  Claim C8, as the code has it. On a well-formed deque, with \<open>i\<close> and \<open>j\<close> at most
  \<open>size()\<close>: when the deque is empty the difference of \<open>begin() + i\<close> and
  \<open>begin() + j\<close> throws; otherwise it is \<open>i - j\<close> when \<open>j \<le> i\<close>, and the unsigned
  value \<open>2^64 - (j - i)\<close> when \<open>i < j\<close>: the result type of the operator is \<open>size_t\<close>,
  and the result is \<open>i - j\<close> modulo \<open>2^64\<close>. (\<open>size_t\<close> holds the size: it is below
  \<open>2^64\<close>.)
\<close>

theorem iter_diff_begin_plus:
  assumes "wf_deque d" "i \<le> size_deque d" "j \<le> size_deque d"
      and "size_deque d < 2 ^ 64"
  shows "\<exists>a r. iter_plus d (begin_deque d) (int i) = Inr a
             \<and> iter_plus d (begin_deque d) (int j) = Inr r
             \<and> iter_diff d a r =
                 (if empty_deque d then Inl Out_of_range
                  else Inr (if j \<le> i then i - j else 2 ^ 64 - (j - i)))"
proof -
  have ne: "[] \<notin> set (blocks d)" and tot: "total_size d = length (concat (blocks d))"
    using assms(1) by (simp_all add: wf_deque_def)
  have ij: "i \<le> length (concat (blocks d))" "j \<le> length (concat (blocks d))"
    using assms(2,3) tot by (simp_all add: size_deque_def)
  note plus = begin_plus [OF ne ij(1)] begin_plus [OF ne ij(2)]
  show ?thesis
  proof (cases "empty_deque d")
    case True
    then have "blocks d = []"
      using assms(1) by (simp add: empty_deque_def wf_empty_iff)
    then have "block_it (iter_at d i) = None" by (simp add: iter_at_def)
    then have "iter_diff d (iter_at d i) (iter_at d j) = Inl Out_of_range"
      by (simp add: iter_diff_def)
    then show ?thesis using True plus by simp
  next
    case False
    then have bsne: "blocks d \<noteq> []"
      using assms(1) by (simp add: empty_deque_def wf_empty_iff)
    have vi: "valid_iter d (iter_at d i)" "index_of d (iter_at d i) = i"
      using iter_at_valid [OF ij(1)] by simp_all
    have vj: "valid_iter d (iter_at d j)" "index_of d (iter_at d j) = j"
      using iter_at_valid [OF ij(2)] by simp_all
    have "iter_diff d (iter_at d i) (iter_at d j)
            = Inr (if j \<le> i then i - j else neg_size_t (j - i))"
      using iter_diff_valid [OF ne bsne vi(1) vj(1)] vi(2) vj(2) by simp
    moreover have "\<not> j \<le> i \<Longrightarrow> neg_size_t (j - i) = 2 ^ 64 - (j - i)"
      using assms(3,4) by (intro neg_size_t_small) auto
    ultimately have "iter_diff d (iter_at d i) (iter_at d j)
            = Inr (if j \<le> i then i - j else 2 ^ 64 - (j - i))"
      by simp
    then show ?thesis using False plus by simp
  qed
qed

theorem iter_diff_begin_plus_witness:
  "wf_deque \<lparr>blocks = [[1, 2], [3::nat]], total_size = 3, block_size = 2\<rparr>
   \<and> (\<exists>a r. iter_plus \<lparr>blocks = [[1, 2], [3::nat]], total_size = 3, block_size = 2\<rparr>
               (begin_deque \<lparr>blocks = [[1, 2], [3::nat]], total_size = 3, block_size = 2\<rparr>) 1
               = Inr a
           \<and> iter_plus \<lparr>blocks = [[1, 2], [3::nat]], total_size = 3, block_size = 2\<rparr>
               (begin_deque \<lparr>blocks = [[1, 2], [3::nat]], total_size = 3, block_size = 2\<rparr>) 3
               = Inr r
           \<and> iter_diff \<lparr>blocks = [[1, 2], [3::nat]], total_size = 3, block_size = 2\<rparr> a r
               = Inr 18446744073709551614
           \<and> iter_diff \<lparr>blocks = [[1, 2], [3::nat]], total_size = 3, block_size = 2\<rparr> r a
               = Inr 2)"
proof -
  let ?d = "\<lparr>blocks = [[1, 2], [3::nat]], total_size = 3, block_size = 2\<rparr>"
  have w: "wf_deque ?d" by (simp add: wf_deque_def)
  have e: "\<not> empty_deque ?d" by (simp add: empty_deque_def)
  have s: "1 \<le> size_deque ?d" "3 \<le> size_deque ?d" "size_deque ?d < 2 ^ 64"
    by (simp_all add: size_deque_def)
  show ?thesis
    using iter_diff_begin_plus [OF w s(1) s(2) s(3)] iter_diff_begin_plus [OF w s(2) s(1) s(3)]
          w e
    by auto
qed

text \<open>
  The claim as stated fails in two ways. On the empty deque \<open>begin() + 0\<close> is the
  null iterator, and the difference of two null iterators throws. On the deque of
  blocks \<open>[1, 2]\<close> and \<open>[3]\<close> the difference of \<open>begin() + 0\<close> and \<open>begin() + 1\<close> is
  \<open>2^64 - 1\<close>, not \<open>-1\<close>.
\<close>

theorem iter_diff_counterexample:
  "iter_plus (deque_init :: nat deque) (begin_deque (deque_init :: nat deque)) 0
     = Inr \<lparr>item_it = None, block_it = None\<rparr>
   \<and> iter_diff (deque_init :: nat deque) \<lparr>item_it = None, block_it = None\<rparr>
        \<lparr>item_it = None, block_it = None\<rparr> = Inl Out_of_range
   \<and> iter_plus \<lparr>blocks = [[1, 2], [3::nat]], total_size = 3, block_size = 2\<rparr>
        (begin_deque \<lparr>blocks = [[1, 2], [3::nat]], total_size = 3, block_size = 2\<rparr>) 0
     = Inr \<lparr>item_it = Some 0, block_it = Some 0\<rparr>
   \<and> iter_plus \<lparr>blocks = [[1, 2], [3::nat]], total_size = 3, block_size = 2\<rparr>
        (begin_deque \<lparr>blocks = [[1, 2], [3::nat]], total_size = 3, block_size = 2\<rparr>) 1
     = Inr \<lparr>item_it = Some 1, block_it = Some 0\<rparr>
   \<and> iter_diff \<lparr>blocks = [[1, 2], [3::nat]], total_size = 3, block_size = 2\<rparr>
        \<lparr>item_it = Some 0, block_it = Some 0\<rparr> \<lparr>item_it = Some 1, block_it = Some 0\<rparr>
     = Inr 18446744073709551615"
proof -
  let ?d = "\<lparr>blocks = [[1, 2], [3::nat]], total_size = 3, block_size = 2\<rparr>"
  have "iter_plus ?d (begin_deque ?d) 1 = Inr \<lparr>item_it = Some 1, block_it = Some 0\<rparr>"
    using dl_distance_to_end [of 0 "[1, 2::nat]"] dl_advance_Some [of 0 1 "[1, 2::nat]"]
    by (simp add: iter_plus_def plus_nonneg_def begin_deque_def dl_begin_def)
  moreover
  have "same_block_walk [1, 2::nat] (Some 1) (Some 0) 0 = (True, 1)"
    by (simp add: same_block_walk.simps dl_next_def)
  then have "iter_diff ?d \<lparr>item_it = Some 0, block_it = Some 0\<rparr>
               \<lparr>item_it = Some 1, block_it = Some 0\<rparr> = Inr 18446744073709551615"
    using dl_distance_Some [of 0 1 "[1, 2::nat]"]
    by (simp add: iter_diff_def neg_size_t_def)
  ultimately show ?thesis
    by (simp add: iter_plus_def plus_nonneg_def iter_diff_def begin_deque_def deque_init_def
                  dl_begin_def)
qed

section \<open>Insertion and erasure\<close>

lemma relocate_locate:
  "[] \<notin> set rest \<Longrightarrow> dis < length (concat rest) \<Longrightarrow>
   relocate rest b dis = Inr (locate rest b dis)"
proof (induction rest arbitrary: b dis)
  case Nil
  then show ?case by simp
next
  case (Cons items after)
  have ne: "items \<noteq> []" using Cons.prems(1) by auto
  show ?case
  proof (cases "dis \<ge> length items")
    case True
    then have an: "after \<noteq> []" using Cons.prems(2) by auto
    have "relocate after (Suc b) (dis - length items)
            = Inr (locate after (Suc b) (dis - length items))"
      using Cons.prems True by (intro Cons.IH) auto
    then show ?thesis using True an by simp
  next
    case False
    then have "dl_advance items (Some 0) dis = Inr (Some dis)"
      using dl_advance_Some [of 0 dis items] by simp
    then show ?thesis using False ne by (simp add: relocate_item_def dl_begin_def)
  qed
qed

lemma relocate_iter_at:
  "[] \<notin> set (blocks d) \<Longrightarrow> p < length (concat (blocks d)) \<Longrightarrow>
   relocate (blocks d) 0 p = Inr (iter_at d p)"
  by (simp add: relocate_locate iter_at_def)

lemma concat_nth_split:
  "b < length bs \<Longrightarrow> concat bs = concat (take b bs) @ bs ! b @ concat (drop (Suc b) bs)"
  by (metis concat.simps(2) concat_append id_take_nth_drop)

lemma concat_update:
  "b < length bs \<Longrightarrow> concat (bs[b := x]) = concat (take b bs) @ x @ concat (drop (Suc b) bs)"
  by (simp add: upd_conv_take_nth_drop)

lemma dl_insert_offset:
  "item_ok xs it \<Longrightarrow>
   dl_insert xs it v = take (item_offset xs it) xs @ v # drop (item_offset xs it) xs"
  by (cases it) (simp_all add: dl_insert_def item_offset_def)

lemma concat_insert_in_block:
  assumes "b < length bs" "off \<le> length (bs ! b)"
  shows "concat (bs[b := take off (bs ! b) @ v # drop off (bs ! b)])
           = take (block_start bs b + off) (concat bs)
             @ v # drop (block_start bs b + off) (concat bs)"
proof -
  let ?A = "concat (take b bs)" and ?X = "bs ! b" and ?C = "concat (drop (Suc b) bs)"
  have c: "concat bs = ?A @ ?X @ ?C" using assms(1) by (rule concat_nth_split)
  have la: "length ?A = block_start bs b" by (simp add: block_start_def)
  have "take (block_start bs b + off) (?A @ ?X @ ?C) = ?A @ take off ?X"
    using assms(2) la by simp
  moreover have "drop (block_start bs b + off) (?A @ ?X @ ?C) = drop off ?X @ ?C"
    using assms(2) la by simp
  ultimately show ?thesis
    using concat_update [OF assms(1)] by (simp only: c) simp
qed

lemma concat_erase_in_block:
  assumes "b < length bs" "k < length (bs ! b)"
  shows "concat (bs[b := take k (bs ! b) @ drop (Suc k) (bs ! b)])
           = take (block_start bs b + k) (concat bs)
             @ drop (Suc (block_start bs b + k)) (concat bs)"
proof -
  let ?A = "concat (take b bs)" and ?X = "bs ! b" and ?C = "concat (drop (Suc b) bs)"
  have c: "concat bs = ?A @ ?X @ ?C" using assms(1) by (rule concat_nth_split)
  have la: "length ?A = block_start bs b" by (simp add: block_start_def)
  have "take (block_start bs b + k) (?A @ ?X @ ?C) = ?A @ take k ?X"
    using assms(2) la by simp
  moreover have "drop (Suc (block_start bs b + k)) (?A @ ?X @ ?C) = drop (Suc k) ?X @ ?C"
    using assms(2) la by simp
  ultimately show ?thesis
    using concat_update [OF assms(1)] by (simp only: c) simp
qed

lemma concat_remove_empty_block:
  "b < length bs \<Longrightarrow> x = [] \<Longrightarrow> concat (take b bs @ drop (Suc b) bs) = concat (bs[b := x])"
  by (simp add: concat_update)

lemma set_update_nonempty:
  "[] \<notin> set bs \<Longrightarrow> x \<noteq> [] \<Longrightarrow> [] \<notin> set (bs[b := x])"
  by (metis insert_iff set_update_subset_insert subsetD)

lemma set_remove_nonempty:
  "[] \<notin> set bs \<Longrightarrow> [] \<notin> set (take b bs @ drop (Suc b) bs)"
  by (auto dest: in_set_takeD in_set_dropD)

lemma insert_deque_correct:
  assumes wf: "wf_deque d" and v: "valid_iter d pos"
  shows "\<exists>d'. insert_deque d pos x = (Inr (iter_at d' (index_of d pos)), d')
             \<and> wf_deque d'
             \<and> elements d' = take (index_of d pos) (elements d) @ x # drop (index_of d pos) (elements d)
             \<and> total_size d' = total_size d + 1"
proof (cases "blocks d = []")
  case True
  then have pos: "pos = end_deque d" "index_of d pos = 0"
    using v by (cases pos; simp add: valid_iter_def end_deque_def index_of_def
                  split: option.splits)+
  let ?d1 = "d\<lparr>blocks := [[x]], total_size := total_size d + 1\<rparr>"
  have "insert_deque d pos x = (Inr \<lparr>item_it = Some 0, block_it = Some 0\<rparr>, ?d1)"
    using True pos(1) by (simp add: insert_deque_def Let_def dl_begin_def dl_get_tail_def)
  moreover have "iter_at ?d1 0 = \<lparr>item_it = Some 0, block_it = Some 0\<rparr>"
    by (simp add: iter_at_def)
  moreover have "wf_deque ?d1" using wf True by (simp add: wf_deque_def)
  moreover have "elements ?d1 = take 0 (elements d) @ x # drop 0 (elements d)"
    using True by (simp add: elements_def)
  ultimately show ?thesis using pos(2) by simp
next
  case False
  let ?bs = "blocks d"
  let ?p = "index_of d pos"
  have ne: "[] \<notin> set ?bs" and tot: "total_size d = length (concat ?bs)"
    using wf by (simp_all add: wf_deque_def)
  obtain b where b: "block_it pos = Some b" "b < length ?bs"
      "item_ok (?bs ! b) (item_it pos)"
      "?p = block_start ?bs b + item_offset (?bs ! b) (item_it pos)"
    using valid_iter_block [OF v False] by metis
  have ple: "?p \<le> length (concat ?bs)" using valid_iter_iter_at [OF v] by simp
  have dis: "iter_diff d pos (begin_deque d) = Inr ?p"
    using ne False v by (rule iter_diff_from_begin)
  define d1 where "d1 = d\<lparr>blocks := ?bs[b := dl_insert (?bs ! b) (item_it pos) x],
                            total_size := total_size d + 1\<rparr>"
  have ins: "insert_deque d pos x = (relocate (blocks (Balance d1)) 0 ?p, Balance d1)"
    using False b(1) dis ple tot by (simp add: insert_deque_def Let_def d1_def)
  let ?off = "item_offset (?bs ! b) (item_it pos)"
  have di: "dl_insert (?bs ! b) (item_it pos) x = take ?off (?bs ! b) @ x # drop ?off (?bs ! b)"
    using b(3) by (rule dl_insert_offset)
  have el1: "concat (blocks d1) = take ?p (concat ?bs) @ x # drop ?p (concat ?bs)"
    using concat_insert_in_block [OF b(2) item_offset_le [OF b(3)], of x] b(4)
    by (simp add: d1_def di)
  have "[] \<notin> set (blocks d1)"
    using ne by (simp add: d1_def di set_update_nonempty)
  moreover have "length (concat (blocks d1)) = length (concat ?bs) + 1"
    using ple by (simp only: el1) simp
  ultimately have wf1: "wf_deque d1" using tot by (simp add: wf_deque_def d1_def)
  then have wf2: "wf_deque (Balance d1)" by (rule wf_Balance)
  have el2: "elements (Balance d1) = take ?p (elements d) @ x # drop ?p (elements d)"
    using el1 by (simp only: elements_def concat_blocks_Balance)
  have "?p < length (concat (blocks (Balance d1)))"
    using ple el2 by (simp add: elements_def)
  then have "relocate (blocks (Balance d1)) 0 ?p = Inr (iter_at (Balance d1) ?p)"
    using wf2 by (intro relocate_iter_at) (simp_all add: wf_deque_def)
  moreover have "total_size (Balance d1) = total_size d + 1"
    by (simp add: total_size_Balance d1_def)
  ultimately show ?thesis using ins wf2 el2 by simp
qed

lemma erase_correct:
  assumes wf: "wf_deque d" and v: "valid_iter d pos" and lt: "index_of d pos < total_size d"
  shows "\<exists>d'. erase d pos = (Inr (iter_at d' (index_of d pos)), d')
             \<and> wf_deque d'
             \<and> elements d' = take (index_of d pos) (elements d)
                               @ drop (Suc (index_of d pos)) (elements d)
             \<and> total_size d' = total_size d - 1"
proof -
  let ?bs = "blocks d"
  let ?p = "index_of d pos"
  have ne: "[] \<notin> set ?bs" and tot: "total_size d = length (concat ?bs)"
    using wf by (simp_all add: wf_deque_def)
  have bsne: "?bs \<noteq> []" using lt tot by auto
  obtain b where b: "block_it pos = Some b" "b < length ?bs"
      "item_ok (?bs ! b) (item_it pos)"
      "?p = block_start ?bs b + item_offset (?bs ! b) (item_it pos)"
      "item_it pos = None \<Longrightarrow> Suc b = length ?bs"
    using valid_iter_block [OF v bsne] by metis
  have "item_it pos \<noteq> None"
  proof
    assume n: "item_it pos = None"
    then have "?p = length (concat ?bs)"
      using b(4) b(5) block_start_Suc [OF b(2)] block_start_length [of ?bs]
      by (simp add: item_offset_def)
    then show False using lt tot by simp
  qed
  then obtain k where k: "item_it pos = Some k" by auto
  then have kl: "k < length (?bs ! b)" and p: "?p = block_start ?bs b + k"
    using b(3,4) by (simp_all add: item_ok_def item_offset_def)
  have dis: "iter_diff d pos (begin_deque d) = Inr ?p"
    using ne bsne v by (rule iter_diff_from_begin)
  define items' where "items' = take k (?bs ! b) @ drop (Suc k) (?bs ! b)"
  define d1 where "d1 = d\<lparr>blocks := (if items' = [] then take b ?bs @ drop (Suc b) ?bs
                                        else ?bs[b := items']),
                            total_size := total_size d - 1\<rparr>"
  have el0: "concat (?bs[b := items']) = take ?p (concat ?bs) @ drop (Suc ?p) (concat ?bs)"
    using concat_erase_in_block [OF b(2) kl] p by (simp add: items'_def)
  have "concat (blocks d1) = concat (?bs[b := items'])"
    using concat_remove_empty_block [OF b(2), of items'] by (simp add: d1_def)
  then have el1: "concat (blocks d1) = take ?p (concat ?bs) @ drop (Suc ?p) (concat ?bs)"
    using el0 by simp
  have n1: "[] \<notin> set (blocks d1)"
    using set_update_nonempty [OF ne, of items' b] set_remove_nonempty [OF ne, of b]
    by (simp add: d1_def)
  have "length (concat (blocks d1)) = length (concat ?bs) - 1"
    using lt tot by (simp only: el1) simp
  then have wf1: "wf_deque d1" using tot n1 by (simp add: wf_deque_def d1_def)
  have t1: "total_size d1 = total_size d - 1" by (simp add: d1_def)
  have el1': "elements d1 = take ?p (elements d) @ drop (Suc ?p) (elements d)"
    using el1 by (simp add: elements_def)
  have er: "erase d pos =
              (if empty_deque d1 \<or> ?p = total_size d1 then (Inr (end_deque d1), d1)
               else (relocate (blocks (Balance d1)) 0 ?p, Balance d1))"
    using b(1) dis lt k
    by (simp add: erase_def dl_erase_def Let_def d1_def items'_def)
  show ?thesis
  proof (cases "empty_deque d1 \<or> ?p = total_size d1")
    case True
    then have "?p = total_size d1" using lt t1 by (auto simp: empty_deque_def)
    then have "end_deque d1 = iter_at d1 ?p"
      using end_deque_iter_at [of d1] wf1 by (simp add: wf_deque_def)
    then show ?thesis using True er wf1 el1' t1 by auto
  next
    case False
    then have plt: "?p < total_size d1" using lt t1 by arith
    have wf2: "wf_deque (Balance d1)" using wf1 by (rule wf_Balance)
    have "elements (Balance d1) = elements d1" by (rule elements_Balance)
    moreover have "total_size (Balance d1) = total_size d1" by (rule total_size_Balance)
    moreover have "relocate (blocks (Balance d1)) 0 ?p = Inr (iter_at (Balance d1) ?p)"
      using wf2 plt total_size_Balance [of d1]
      by (intro relocate_iter_at) (simp_all add: wf_deque_def)
    ultimately show ?thesis using False er wf2 el1' t1 by auto
  qed
qed

lemma erase_fails:
  assumes wf: "wf_deque d" and v: "valid_iter d pos \<or> block_it pos = None"
      and ge: "block_it pos = None \<or> total_size d \<le> index_of d pos"
  shows "erase d pos = (Inl Out_of_range, d)"
proof (cases "block_it pos")
  case None
  then show ?thesis by (simp add: erase_def)
next
  case (Some b)
  then have vp: "valid_iter d pos" and ge': "total_size d \<le> index_of d pos"
    using v ge by auto
  have bsne: "blocks d \<noteq> []" using vp Some by (auto simp: valid_iter_def)
  have "iter_diff d pos (begin_deque d) = Inr (index_of d pos)"
    using wf bsne vp by (intro iter_diff_from_begin) (simp_all add: wf_deque_def)
  then show ?thesis using Some ge' by (simp add: erase_def)
qed

lemma insert_deque_null:
  assumes "blocks d \<noteq> []" "block_it pos = None"
  shows "insert_deque d pos x = (Inl Out_of_range, d)"
  using assms by (simp add: insert_deque_def)

text \<open>
  Claim C6. On a well-formed deque, for a valid position \<open>pos\<close> (an item, or
  \<open>end()\<close>) and a value \<open>x\<close>: \<open>insert(pos, x)\<close> returns an iterator, \<open>erase\<close> at
  that iterator succeeds, and the deque then has the element sequence and the size it
  had before the insertion.
\<close>

theorem insert_erase_roundtrip:
  assumes "wf_deque d" "valid_iter d pos"
  shows "\<exists>r d1 r2 d2. insert_deque d pos x = (Inr r, d1) \<and> erase d1 r = (Inr r2, d2)
                    \<and> elements d2 = elements d \<and> size_deque d2 = size_deque d"
proof -
  let ?p = "index_of d pos"
  let ?es = "elements d"
  obtain d1 where d1: "insert_deque d pos x = (Inr (iter_at d1 ?p), d1)" "wf_deque d1"
      "elements d1 = take ?p ?es @ x # drop ?p ?es" "total_size d1 = total_size d + 1"
    using insert_deque_correct [OF assms] by blast
  have ple: "?p \<le> length ?es"
    using valid_iter_iter_at [OF assms(2)] by (simp add: elements_def)
  have tot1: "total_size d1 = length (concat (blocks d1))"
    using d1(2) by (simp add: wf_deque_def)
  have tot: "total_size d = length ?es"
    using assms(1) by (simp add: wf_deque_def elements_def)
  have "?p \<le> length (concat (blocks d1))" using ple tot tot1 d1(4) by simp
  then have vr: "valid_iter d1 (iter_at d1 ?p)" and ir: "index_of d1 (iter_at d1 ?p) = ?p"
    using iter_at_valid [of ?p d1] by simp_all
  have "index_of d1 (iter_at d1 ?p) < total_size d1" using ir ple tot d1(4) by simp
  then obtain d2 where d2: "erase d1 (iter_at d1 ?p) = (Inr (iter_at d2 ?p), d2)"
      "elements d2 = take ?p (elements d1) @ drop (Suc ?p) (elements d1)"
      "total_size d2 = total_size d1 - 1"
    using erase_correct [OF d1(2) vr] ir by auto
  have "take ?p (take ?p ?es @ x # drop ?p ?es) = take ?p ?es"
    using ple by simp
  moreover have "drop (Suc ?p) (take ?p ?es @ x # drop ?p ?es) = drop ?p ?es"
    using ple by simp
  ultimately have "elements d2 = ?es" using d2(2) d1(3) by simp
  moreover have "size_deque d2 = size_deque d" using d2(3) d1(4) by (simp add: size_deque_def)
  ultimately show ?thesis using d1(1) d2(1) by blast
qed

theorem insert_erase_roundtrip_witness:
  "wf_deque \<lparr>blocks = [[1, 2], [3::nat]], total_size = 3, block_size = 2\<rparr>
   \<and> valid_iter \<lparr>blocks = [[1, 2], [3::nat]], total_size = 3, block_size = 2\<rparr>
        \<lparr>item_it = Some 1, block_it = Some 0\<rparr>
   \<and> insert_deque \<lparr>blocks = [[1, 2], [3::nat]], total_size = 3, block_size = 2\<rparr>
        \<lparr>item_it = Some 1, block_it = Some 0\<rparr> 9
       = (Inr \<lparr>item_it = Some 1, block_it = Some 0\<rparr>,
          \<lparr>blocks = [[1, 9, 2], [3]], total_size = 4, block_size = 3\<rparr>)
   \<and> erase \<lparr>blocks = [[1, 9, 2], [3::nat]], total_size = 4, block_size = 3\<rparr>
        \<lparr>item_it = Some 1, block_it = Some 0\<rparr>
       = (Inr \<lparr>item_it = Some 1, block_it = Some 0\<rparr>,
          \<lparr>blocks = [[1, 2], [3]], total_size = 3, block_size = 2\<rparr>)"
proof -
  let ?d = "\<lparr>blocks = [[1, 2], [3::nat]], total_size = 3, block_size = 2\<rparr>"
  let ?it = "\<lparr>item_it = Some 1, block_it = Some 0\<rparr>"
  have w: "wf_deque ?d" by (simp add: wf_deque_def)
  have v: "valid_iter ?d ?it" by (simp add: valid_iter_def)
  have i: "insert_deque ?d ?it 9
             = (Inr ?it, \<lparr>blocks = [[1, 9, 2], [3]], total_size = 4, block_size = 3\<rparr>)"
    by code_simp
  have e: "erase \<lparr>blocks = [[1, 9, 2], [3::nat]], total_size = 4, block_size = 3\<rparr> ?it
             = (Inr ?it, ?d)"
    by code_simp
  show ?thesis
    using insert_erase_roundtrip [OF w v, of 9] w v i e by simp
qed

lemma plus_loop_overflow:
  "[] \<notin> set rest \<Longrightarrow> int (length (concat rest)) < r \<Longrightarrow>
   plus_loop rest b r = Inl Out_of_range"
proof (induction rest arbitrary: b r)
  case Nil
  then show ?case by simp
next
  case (Cons items after)
  have pos: "0 < r" "\<not> r < int (length items)" using Cons.prems(2) by auto
  show ?case
  proof (cases "after = []")
    case True
    then show ?thesis using pos Cons.prems(2) by simp
  next
    case False
    have "plus_loop after (Suc b) (r - int (length items)) = Inl Out_of_range"
      using Cons.prems by (intro Cons.IH) auto
    then show ?thesis using pos False by simp
  qed
qed

lemma begin_plus_overflow:
  assumes ne: "[] \<notin> set (blocks d)" and gt: "length (concat (blocks d)) < i"
  shows "iter_plus d (begin_deque d) (int i) = Inl Out_of_range"
proof (cases "blocks d")
  case Nil
  then show ?thesis using gt
    by (simp add: iter_plus_def plus_nonneg_def begin_deque_def)
next
  case (Cons x xs)
  then have xne: "x \<noteq> []" and xsne: "[] \<notin> set xs" using ne by auto
  have dist: "dl_distance x (Some 0) None = Inr (length x)"
    using dl_distance_to_end [of 0 x] xne by simp
  have far: "\<not> int i < int (length x)" "int i - int (length x) \<noteq> 0" "i \<noteq> 0"
    using gt Cons by auto
  show ?thesis
  proof (cases "xs = []")
    case True
    then show ?thesis using Cons xne dist far
      by (simp add: iter_plus_def plus_nonneg_def begin_deque_def dl_begin_def dl_next_def Let_def)
  next
    case False
    have "plus_loop xs (Suc 0) (int i - int (length x)) = Inl Out_of_range"
      using xsne gt Cons by (intro plus_loop_overflow) auto
    then show ?thesis using Cons xne dist far False
      by (simp add: iter_plus_def plus_nonneg_def begin_deque_def dl_begin_def dl_next_def Let_def)
  qed
qed

section \<open>Sequences of operations\<close>

text \<open>
  A test of the deque against a flat array applies the same operations to both.
  \<open>Insert i x\<close> is \<open>insert(begin() + i, x)\<close> and \<open>Erase i\<close> is \<open>erase(begin() + i)\<close>.
  \<open>apply_op\<close> is the deque after the call, whether it returned or threw. The
  reference model \<open>ref_op\<close> is a list; an operation it has no meaning for (an index
  out of range, a pop of the empty list) leaves it as it is.
\<close>

datatype 'a operation =
  Push_back 'a | Push_front 'a | Insert nat 'a | Erase nat | Pop_back | Pop_front

fun apply_op :: "'a deque \<Rightarrow> 'a operation \<Rightarrow> 'a deque" where
  "apply_op d (Push_back x) = push_back d x"
| "apply_op d (Push_front x) = push_front d x"
| "apply_op d (Insert i x) =
     (case iter_plus d (begin_deque d) (int i) of
        Inl e \<Rightarrow> d
      | Inr pos \<Rightarrow> snd (insert_deque d pos x))"
| "apply_op d (Erase i) =
     (case iter_plus d (begin_deque d) (int i) of
        Inl e \<Rightarrow> d
      | Inr pos \<Rightarrow> snd (erase d pos))"
| "apply_op d Pop_back = snd (pop_back d)"
| "apply_op d Pop_front = snd (pop_front d)"

fun ref_op :: "'a list \<Rightarrow> 'a operation \<Rightarrow> 'a list" where
  "ref_op xs (Push_back x) = xs @ [x]"
| "ref_op xs (Push_front x) = x # xs"
| "ref_op xs (Insert i x) = (if i \<le> length xs then take i xs @ x # drop i xs else xs)"
| "ref_op xs (Erase i) = (if i < length xs then take i xs @ drop (Suc i) xs else xs)"
| "ref_op xs Pop_back = (if xs = [] then xs else butlast xs)"
| "ref_op xs Pop_front = (if xs = [] then xs else tl xs)"

definition run :: "'a operation list \<Rightarrow> 'a deque" where
  "run ops = foldl apply_op deque_init ops"

definition run_ref :: "'a operation list \<Rightarrow> 'a list" where
  "run_ref ops = foldl ref_op [] ops"

lemma wf_deque_init: "wf_deque deque_init"
  by (simp add: wf_deque_def deque_init_def)

lemma pop_back_empty: "total_size d = 0 \<Longrightarrow> pop_back d = (Inl Out_of_range, d)"
  by (simp add: pop_back_def empty_deque_def)

lemma pop_front_empty: "total_size d = 0 \<Longrightarrow> pop_front d = (Inl Out_of_range, d)"
  by (simp add: pop_front_def empty_deque_def)

lemma apply_op_correct:
  assumes wf: "wf_deque d"
  shows "wf_deque (apply_op d op) \<and> elements (apply_op d op) = ref_op (elements d) op"
proof -
  have ne: "[] \<notin> set (blocks d)" and tot: "total_size d = length (elements d)"
    using wf by (simp_all add: wf_deque_def elements_def)
  show ?thesis
  proof (cases op)
    case (Push_back x)
    then show ?thesis using push_back_correct [OF wf, of x] by simp
  next
    case (Push_front x)
    then show ?thesis using push_front_correct [OF wf, of x] by simp
  next
    case (Insert i x)
    show ?thesis
    proof (cases "i \<le> length (elements d)")
      case True
      then have le: "i \<le> length (concat (blocks d))" by (simp add: elements_def)
      have p: "iter_plus d (begin_deque d) (int i) = Inr (iter_at d i)"
        using ne le by (rule begin_plus)
      have v: "valid_iter d (iter_at d i)" "index_of d (iter_at d i) = i"
        using iter_at_valid [OF le] by simp_all
      show ?thesis using insert_deque_correct [OF wf v(1), of x] v(2) p Insert True by auto
    next
      case False
      then have "iter_plus d (begin_deque d) (int i) = Inl Out_of_range"
        using ne by (intro begin_plus_overflow) (simp_all add: elements_def)
      then show ?thesis using Insert False wf by simp
    qed
  next
    case (Erase i)
    show ?thesis
    proof (cases "i \<le> length (elements d)")
      case True
      then have le: "i \<le> length (concat (blocks d))" by (simp add: elements_def)
      have p: "iter_plus d (begin_deque d) (int i) = Inr (iter_at d i)"
        using ne le by (rule begin_plus)
      have v: "valid_iter d (iter_at d i)" "index_of d (iter_at d i) = i"
        using iter_at_valid [OF le] by simp_all
      show ?thesis
      proof (cases "i < length (elements d)")
        case True
        then show ?thesis using erase_correct [OF wf v(1)] v(2) p Erase tot by auto
      next
        case False
        then have "erase d (iter_at d i) = (Inl Out_of_range, d)"
          using v tot \<open>i \<le> length (elements d)\<close> by (intro erase_fails [OF wf]) auto
        then show ?thesis using p Erase False wf by simp
      qed
    next
      case False
      then have "iter_plus d (begin_deque d) (int i) = Inl Out_of_range"
        using ne by (intro begin_plus_overflow) (simp_all add: elements_def)
      then show ?thesis using Erase False wf by simp
    qed
  next
    case Pop_back
    show ?thesis
    proof (cases "total_size d = 0")
      case True
      then show ?thesis using Pop_back wf tot by (simp add: pop_back_empty)
    next
      case False
      then show ?thesis using pop_back_correct [OF wf False] Pop_back tot by auto
    qed
  next
    case Pop_front
    show ?thesis
    proof (cases "total_size d = 0")
      case True
      then show ?thesis using Pop_front wf tot by (simp add: pop_front_empty)
    next
      case False
      then show ?thesis using pop_front_correct [OF wf False] Pop_front tot by auto
    qed
  qed
qed

lemma wf_apply_op: "wf_deque d \<Longrightarrow> wf_deque (apply_op d op)"
  by (simp add: apply_op_correct)

lemma foldl_apply_op_correct:
  "wf_deque d \<Longrightarrow>
   wf_deque (foldl apply_op d ops)
   \<and> elements (foldl apply_op d ops) = foldl ref_op (elements d) ops"
proof (induction ops arbitrary: d)
  case Nil
  then show ?case by simp
next
  case (Cons op ops)
  have "wf_deque (apply_op d op)" "elements (apply_op d op) = ref_op (elements d) op"
    using apply_op_correct [OF Cons.prems] by simp_all
  then show ?case using Cons.IH [of "apply_op d op"] by simp
qed

lemma wf_run: "wf_deque (run ops)"
  using foldl_apply_op_correct [OF wf_deque_init, of ops] by (simp add: run_def)

text \<open>
  Claim C1. After any finite sequence of \<open>push_back\<close>, \<open>push_front\<close>, \<open>insert\<close>,
  \<open>erase\<close>, \<open>pop_back\<close> and \<open>pop_front\<close> operations applied to the initial deque, the
  concatenation of the blocks' item lists is the list the reference model holds after
  the same operations, and \<open>size()\<close> is the sum of the blocks' item counts and the
  length of the reference list. The statement holds for every sequence, hence after
  every operation of a sequence.
\<close>

theorem deque_refines_flat_array:
  "elements (run ops) = run_ref ops
   \<and> size_deque (run ops) = sum_list (map length (blocks (run ops)))
   \<and> size_deque (run ops) = length (run_ref ops)"
proof -
  have "wf_deque (run ops)" and e: "elements (run ops) = run_ref ops"
    using foldl_apply_op_correct [OF wf_deque_init, of ops]
    by (simp_all add: run_def run_ref_def elements_def deque_init_def)
  then have s: "size_deque (run ops) = length (concat (blocks (run ops)))"
    by (simp add: wf_deque_def size_deque_def)
  then have "size_deque (run ops) = sum_list (map length (blocks (run ops)))"
    by (simp add: length_concat)
  moreover have "size_deque (run ops) = length (run_ref ops)"
    using s e by (simp add: elements_def)
  ultimately show ?thesis using e by simp
qed

theorem deque_refines_flat_array_witness:
  "elements (run [Push_back 1, Push_back 2, Push_front 0, Insert 1 9, Erase 0, Pop_back])
     = [9, 1::nat]
   \<and> size_deque (run [Push_back 1, Push_back 2, Push_front 0, Insert 1 9, Erase 0,
                      Pop_back :: nat operation]) = 2"
proof -
  have "run_ref [Push_back 1, Push_back 2, Push_front 0, Insert 1 9, Erase 0, Pop_back]
          = [9, 1::nat]"
    by (simp add: run_ref_def)
  then show ?thesis
    using deque_refines_flat_array
            [of "[Push_back 1, Push_back 2, Push_front 0, Insert 1 9, Erase 0,
                  Pop_back :: nat operation]"]
    by simp
qed

section \<open>Failures and the block invariant\<close>

lemma insert_deque_invalid:
  assumes "\<not> valid_iter d pos" "block_it pos = None"
  shows "insert_deque d pos x = (Inl Out_of_range, d)"
proof (cases "blocks d = []")
  case True
  then have "pos \<noteq> end_deque d" using assms
    by (cases pos) (auto simp: valid_iter_def end_deque_def)
  then show ?thesis using True by (simp add: insert_deque_def)
next
  case False
  then show ?thesis using assms(2) by (rule insert_deque_null)
qed






text \<open>
  Claim C5. On a well-formed deque, after each of \<open>push_back\<close>, \<open>push_front\<close>,
  \<open>pop_back\<close>, \<open>pop_front\<close>, \<open>insert\<close> and \<open>erase\<close> (with the \<open>Balance\<close> it runs, and
  also when one of its checks throws) no block of the block list is empty; so it is after every
  operation of a sequence that starts from the initial deque (\<open>apply_op\<close>).
\<close>

theorem no_empty_block_after_mutation:
  assumes "wf_deque d" "valid_iter d pos \<or> block_it pos = None"
  shows "[] \<notin> set (blocks (push_back d x))
       \<and> [] \<notin> set (blocks (push_front d x))
       \<and> [] \<notin> set (blocks (snd (pop_back d)))
       \<and> [] \<notin> set (blocks (snd (pop_front d)))
       \<and> [] \<notin> set (blocks (snd (insert_deque d pos x)))
       \<and> [] \<notin> set (blocks (snd (erase d pos)))
       \<and> [] \<notin> set (blocks (apply_op d op))"
proof -
  have ne: "[] \<notin> set (blocks d)" using assms(1) by (simp add: wf_deque_def)
  have "wf_deque (snd (pop_back d))"
    using pop_back_correct [OF assms(1)] pop_back_empty [of d] assms(1)
    by (cases "total_size d = 0") simp_all
  moreover have "wf_deque (snd (pop_front d))"
    using pop_front_correct [OF assms(1)] pop_front_empty [of d] assms(1)
    by (cases "total_size d = 0") simp_all
  moreover have "wf_deque (snd (insert_deque d pos x))"
  proof (cases "valid_iter d pos")
    case True
    then show ?thesis using insert_deque_correct [OF assms(1) True, of x] by auto
  next
    case False
    then have "snd (insert_deque d pos x) = d"
      using insert_deque_invalid [of d pos x] assms(2) by simp
    then show ?thesis using assms(1) by simp
  qed
  moreover have "wf_deque (snd (erase d pos))"
  proof (cases "block_it pos = None \<or> total_size d \<le> index_of d pos")
    case True
    then show ?thesis using erase_fails [OF assms True] assms(1) by simp
  next
    case False
    then show ?thesis using erase_correct [OF assms(1), of pos] assms(2) by auto
  qed
  ultimately show ?thesis
    using push_back_correct [OF assms(1), of x] push_front_correct [OF assms(1), of x]
          wf_apply_op [OF assms(1), of op]
    by (simp add: wf_deque_def)
qed

theorem no_empty_block_after_mutation_witness:
  "wf_deque \<lparr>blocks = [[1, 2], [3::nat]], total_size = 3, block_size = 2\<rparr>
   \<and> valid_iter \<lparr>blocks = [[1, 2], [3::nat]], total_size = 3, block_size = 2\<rparr>
        \<lparr>item_it = Some 0, block_it = Some 1\<rparr>
   \<and> snd (erase \<lparr>blocks = [[1, 2], [3::nat]], total_size = 3, block_size = 2\<rparr>
             \<lparr>item_it = Some 0, block_it = Some 1\<rparr>)
       = \<lparr>blocks = [[1, 2]], total_size = 2, block_size = 2\<rparr>
   \<and> snd (pop_back \<lparr>blocks = [[1, 2], [3::nat]], total_size = 3, block_size = 2\<rparr>)
       = \<lparr>blocks = [[1, 2]], total_size = 2, block_size = 2\<rparr>
   \<and> [] \<notin> set (blocks (snd (erase \<lparr>blocks = [[1, 2], [3::nat]], total_size = 3,
                                       block_size = 2\<rparr>
                                     \<lparr>item_it = Some 0, block_it = Some 1\<rparr>)))"
proof -
  let ?d = "\<lparr>blocks = [[1, 2], [3::nat]], total_size = 3, block_size = 2\<rparr>"
  let ?it = "\<lparr>item_it = Some 0, block_it = Some 1\<rparr>"
  have w: "wf_deque ?d" by (simp add: wf_deque_def)
  have v: "valid_iter ?d ?it" by (simp add: valid_iter_def)
  have e: "snd (erase ?d ?it) = \<lparr>blocks = [[1, 2]], total_size = 2, block_size = 2\<rparr>"
    by code_simp
  have p: "snd (pop_back ?d) = \<lparr>blocks = [[1, 2]], total_size = 2, block_size = 2\<rparr>"
    by code_simp
  show ?thesis
    using no_empty_block_after_mutation [OF w disjI1 [OF v], of 9 Pop_back] w v e p by simp
qed

end
